theory Spec2Isabelle
  imports Main "HOL-Library.Multiset"
begin

section \<open>The worker pool (package server)\<close>

subsection \<open>Data\<close>

text \<open>
  \<^verbatim>\<open>type Job struct { Filename string; VideoID string }\<close>
\<close>

record Job =
  Filename :: string
  VideoID :: string

text \<open>The run-time panics the server code can raise.\<close>

datatype panic =
    SendOnClosedChannel
  | CloseOfClosedChannel
  | MakeChanSizeOutOfRange
  | NilPointerDereference

text \<open>
  A Go channel of Jobs, with the fields of the runtime's channel descriptor that decide the
  behaviour of the three operations the server uses: the buffered elements in FIFO order,
  the capacity given to \<^verbatim>\<open>make\<close>, the closed flag, and the queue of receivers
  parked on the empty channel (goroutine ids, in the order they parked).
\<close>

record chan =
  chbuf :: "Job list"
  dataqsiz :: nat
  chclosed :: bool
  recvq :: "nat list"

text \<open>
  The state of one worker goroutine, at the granularity of its channel operations:
  at the head of its \<^verbatim>\<open>for job := range wp.JobQueue\<close> loop, parked in the receive,
  processing a job, told by the receive that the channel is closed and drained (the loop
  is over and the deferred \<^verbatim>\<open>wp.wg.Done()\<close> is still to run), or returned.
\<close>

datatype wstate = Ready | Parked | Working Job | Closing | Exited

text \<open>
  \<^verbatim>\<open>type WorkerPool struct { JobQueue chan Job; WorkerCount int; wg sync.WaitGroup }\<close>
  The WaitGroup is its counter; \<open>goroutines\<close> holds the worker goroutines that
  \<^verbatim>\<open>Start\<close> has spawned (the goroutine id is the position in the list).
\<close>

record WorkerPool =
  JobQueue :: chan
  WorkerCount :: int
  wg :: int
  goroutines :: "wstate list"

subsection \<open>Channel operations\<close>

text \<open>\<^verbatim>\<open>make(chan Job, q)\<close>: panics on a negative size.\<close>

definition make_chan :: "int \<Rightarrow> panic + chan" where
  "make_chan q =
     (if q < 0 then Inl MakeChanSizeOutOfRange
      else Inr \<lparr>chbuf = [], dataqsiz = nat q, chclosed = False, recvq = []\<rparr>)"

text \<open>
  A send that must not block (the \<^verbatim>\<open>case ch <- v\<close> of a \<^verbatim>\<open>select\<close> with a
  \<^verbatim>\<open>default\<close>). A send on a closed channel panics, whatever the buffer holds; a parked
  receiver takes the value directly; otherwise the value goes to the tail of the buffer
  when there is room, and the send would block when there is none.
\<close>

datatype send_result = SendPanics | SendWouldBlock | SendBuffered chan | SendHandoff nat chan

definition chansend_nb :: "chan \<Rightarrow> Job \<Rightarrow> send_result" where
  "chansend_nb c v =
     (if chclosed c then SendPanics
      else case recvq c of
        r # rs \<Rightarrow> SendHandoff r (c\<lparr>recvq := rs\<rparr>)
      | [] \<Rightarrow>
          if length (chbuf c) < dataqsiz c then SendBuffered (c\<lparr>chbuf := chbuf c @ [v]\<rparr>)
          else SendWouldBlock)"

text \<open>
  A receive, as the \<^verbatim>\<open>range\<close> loop performs it: the head of the buffer when there is
  one; the end of the loop when the channel is empty and closed; otherwise the receiver
  has to park.
\<close>

datatype recv_result = RecvJob Job chan | RecvClosed | RecvWouldBlock

definition chanrecv :: "chan \<Rightarrow> recv_result" where
  "chanrecv c =
     (case chbuf c of
        j # js \<Rightarrow> RecvJob j (c\<lparr>chbuf := js\<rparr>)
      | [] \<Rightarrow> if chclosed c then RecvClosed else RecvWouldBlock)"

text \<open>
  \<^verbatim>\<open>close(ch)\<close>: panics on a closed channel; otherwise sets the flag and releases
  every parked receiver (the released ids are returned).
\<close>

definition closechan :: "chan \<Rightarrow> panic + (nat list \<times> chan)" where
  "closechan c =
     (if chclosed c then Inl CloseOfClosedChannel
      else Inr (recvq c, c\<lparr>chclosed := True, recvq := []\<rparr>))"

subsection \<open>The pool's methods\<close>

text \<open>
  \<^verbatim>\<open>func NewWorkerPool(c int, q int) *WorkerPool {
    return &WorkerPool{JobQueue: make(chan Job, q), WorkerCount: c}
  }\<close>
\<close>

definition NewWorkerPool :: "int \<Rightarrow> int \<Rightarrow> panic + WorkerPool" where
  "NewWorkerPool c q =
     (case make_chan q of
        Inl p \<Rightarrow> Inl p
      | Inr ch \<Rightarrow> Inr \<lparr>JobQueue = ch, WorkerCount = c, wg = 0, goroutines = []\<rparr>)"

text \<open>
  \<^verbatim>\<open>func (wp *WorkerPool) Start() {
    for i := 1; i <= wp.WorkerCount; i++ { wp.wg.Add(1); go wp.worker(i) }
  }\<close>
  The loop runs \<open>WorkerCount\<close> times when that is positive and not at all otherwise.
\<close>

definition Start :: "WorkerPool \<Rightarrow> WorkerPool" where
  "Start wp =
     wp\<lparr>wg := wg wp + int (nat (WorkerCount wp)),
        goroutines := goroutines wp @ replicate (nat (WorkerCount wp)) Ready\<rparr>"

text \<open>
  \<^verbatim>\<open>func (wp *WorkerPool) AddJob(job Job) bool {
    select {
    case wp.JobQueue <- job: return true
    default:                 return false
    }
  }\<close>
  The result is the panic, or the returned boolean with the pool after the call.
\<close>

definition AddJob :: "WorkerPool \<Rightarrow> Job \<Rightarrow> panic + (bool \<times> WorkerPool)" where
  "AddJob wp job =
     (case chansend_nb (JobQueue wp) job of
        SendPanics \<Rightarrow> Inl SendOnClosedChannel
      | SendWouldBlock \<Rightarrow> Inr (False, wp)
      | SendBuffered c \<Rightarrow> Inr (True, wp\<lparr>JobQueue := c\<rparr>)
      | SendHandoff r c \<Rightarrow>
          Inr (True, wp\<lparr>JobQueue := c, goroutines := (goroutines wp)[r := Working job]\<rparr>))"

text \<open>
  The first statement of
  \<^verbatim>\<open>func (wp *WorkerPool) Stop() { close(wp.JobQueue); wp.wg.Wait() }\<close>:
  the receivers that the close releases leave their loops.
\<close>

definition wake :: "nat list \<Rightarrow> wstate list \<Rightarrow> wstate list" where
  "wake rs gs = fold (\<lambda>r g. g[r := Closing]) rs gs"

definition Stop_close :: "WorkerPool \<Rightarrow> panic + WorkerPool" where
  "Stop_close wp =
     (case closechan (JobQueue wp) of
        Inl p \<Rightarrow> Inl p
      | Inr (rs, c) \<Rightarrow> Inr (wp\<lparr>JobQueue := c, goroutines := wake rs (goroutines wp)\<rparr>))"

text \<open>The second statement: \<^verbatim>\<open>wp.wg.Wait()\<close> returns when the counter is zero.\<close>

definition Stop_wait_returns :: "WorkerPool \<Rightarrow> bool" where
  "Stop_wait_returns wp = (wg wp = 0)"

subsection \<open>Sequences of queue operations\<close>





text \<open>The pool with the given jobs in its queue.\<close>

definition with_queue :: "WorkerPool \<Rightarrow> Job list \<Rightarrow> WorkerPool" where
  "with_queue wp js = wp\<lparr>JobQueue := (JobQueue wp)\<lparr>chbuf := js\<rparr>\<rparr>"

section \<open>The upload server (package main)\<close>

subsection \<open>Library functions on strings and paths\<close>

text \<open>
  \<^verbatim>\<open>strings.HasSuffix(s, suffix)\<close>:
  \<^verbatim>\<open>len(s) >= len(suffix) && s[len(s)-len(suffix):] == suffix\<close>.
\<close>

definition HasSuffix :: "string \<Rightarrow> string \<Rightarrow> bool" where
  "HasSuffix s suffix =
     (length suffix \<le> length s \<and> drop (length s - length suffix) s = suffix)"

text \<open>
  \<^verbatim>\<open>filepath.Base\<close> on Unix (the separator is the slash, there is no volume name):
  the empty path gives a dot; trailing slashes are stripped; what follows the last
  remaining slash is the result, and a path of slashes only gives one slash.
\<close>

definition IsPathSeparator :: "char \<Rightarrow> bool" where
  "IsPathSeparator c = (c = CHR ''/'')"

definition strip_trailing_slashes :: "string \<Rightarrow> string" where
  "strip_trailing_slashes path = rev (dropWhile IsPathSeparator (rev path))"

definition last_element :: "string \<Rightarrow> string" where
  "last_element path = rev (takeWhile (\<lambda>c. \<not> IsPathSeparator c) (rev path))"

definition Base :: "string \<Rightarrow> string" where
  "Base path =
     (if path = [] then ''.''
      else let p = last_element (strip_trailing_slashes path)
           in if p = [] then ''/'' else p)"

text \<open>
  \<^verbatim>\<open>filepath.Clean\<close> on Unix, by path elements: empty elements and dots are dropped; a
  dot-dot removes the element before it, is kept at the front of a relative path, and is
  dropped at the root; the empty result is a dot.
\<close>

fun split_path :: "string \<Rightarrow> string list" where
  "split_path [] = [[]]"
| "split_path (c # cs) =
     (if IsPathSeparator c then [] # split_path cs
      else (case split_path cs of [] \<Rightarrow> [[c]] | e # es \<Rightarrow> (c # e) # es))"

fun join_sep :: "string list \<Rightarrow> string" where
  "join_sep [] = []"
| "join_sep [e] = e"
| "join_sep (e # es) = e @ ''/'' @ join_sep es"

definition clean_elem :: "bool \<Rightarrow> string list \<Rightarrow> string \<Rightarrow> string list" where
  "clean_elem rooted out e =
     (if e = [] \<or> e = ''.'' then out
      else if e = ''..'' then
        (if out \<noteq> [] \<and> last out \<noteq> ''..'' then butlast out
         else if rooted then out
         else out @ [''..''])
      else out @ [e])"

definition Clean :: "string \<Rightarrow> string" where
  "Clean path =
     (if path = [] then ''.''
      else let rooted = IsPathSeparator (hd path);
               out = foldl (clean_elem rooted) [] (split_path path);
               s = (if rooted then ''/'' else []) @ join_sep out
           in if s = [] then ''.'' else s)"

text \<open>
  \<^verbatim>\<open>filepath.Join\<close>: the elements from the first non-empty one on, joined by slashes and
  cleaned; the empty string when there is none.
\<close>

fun Join :: "string list \<Rightarrow> string" where
  "Join [] = []"
| "Join (e # es) = (if e \<noteq> [] then Clean (join_sep (e # es)) else Join es)"

declare Join.simps [simp del]

subsection \<open>Files\<close>

text \<open>
  The regular files of the storage directory, by path, with their contents, and the pool
  the handlers share. \<^verbatim>\<open>os.Create\<close>, \<^verbatim>\<open>Write\<close> and \<^verbatim>\<open>os.Remove\<close> can
  fail; which calls do is a parameter of the model: \<open>create_fails\<close> and \<open>remove_fails\<close>
  by path, \<open>write_fails\<close> by path and the size the file has when the write is
  attempted. So is whether the reply of the
  streaming call can be sent (\<open>send_fails\<close>), and the external program (\<open>ffmpeg\<close>).
\<close>

record world =
  files :: "string \<rightharpoonup> string"
  pool :: WorkerPool

record env =
  create_fails :: "string \<Rightarrow> bool"
  write_fails :: "string \<Rightarrow> nat \<Rightarrow> bool"
  remove_fails :: "string \<Rightarrow> bool"
  send_fails :: bool
  ffmpeg :: "string list \<Rightarrow> (string \<rightharpoonup> string) \<Rightarrow> bool \<times> (string \<rightharpoonup> string)"

text \<open>
  An \<^verbatim>\<open>*os.File\<close> that is not nil: its name and whether it has been closed.
  The nil pointer is \<open>None\<close>.
\<close>

record handle =
  hname :: string
  hclosed :: bool

text \<open>
  The calls a handler or a worker makes, with their results, in the order made.
  For \<open>CallClose\<close> the boolean says whether the call closed the file (true) or found it
  closed already and returned \<^verbatim>\<open>os.ErrClosed\<close> (false); for \<open>CallRemove\<close> whether
  the file was removed; for \<open>CallAddJob\<close> the result is \<open>None\<close> when the call panicked.
\<close>

datatype call =
    CallCreate string bool
  | CallWrite string nat bool
  | CallClose string bool
  | CallRemove string bool
  | CallAddJob Job "bool option"
  | CallExec "string list" bool

text \<open>
  \<^verbatim>\<open>os.Create(name)\<close> opens with \<^verbatim>\<open>O_RDWR|O_CREATE|O_TRUNC\<close>: the file exists and is
  empty afterwards, whether it existed before or not. On an error the returned pointer
  is nil.
\<close>

definition os_Create :: "env \<Rightarrow> string \<Rightarrow> world \<Rightarrow> call list \<Rightarrow> handle option \<times> world \<times> call list" where
  "os_Create e name w cs =
     (if create_fails e name then (None, w, cs @ [CallCreate name False])
      else (Some \<lparr>hname = name, hclosed = False\<rparr>,
            w\<lparr>files := (files w)(name \<mapsto> [])\<rparr>, cs @ [CallCreate name True]))"

text \<open>\<^verbatim>\<open>f.Write(b)\<close>: appends to the file; an error on a closed file or when the write fails.\<close>

definition file_size :: "world \<Rightarrow> string \<Rightarrow> nat" where
  "file_size w name = (case files w name of None \<Rightarrow> 0 | Some data \<Rightarrow> length data)"

definition file_Write :: "env \<Rightarrow> handle \<Rightarrow> string \<Rightarrow> world \<Rightarrow> call list \<Rightarrow> bool \<times> world \<times> call list" where
  "file_Write e f b w cs =
     (if hclosed f \<or> write_fails e (hname f) (file_size w (hname f))
      then (False, w, cs @ [CallWrite (hname f) 0 False])
      else (True,
            w\<lparr>files := (case files w (hname f) of
                           None \<Rightarrow> files w
                         | Some data \<Rightarrow> (files w)(hname f \<mapsto> data @ b))\<rparr>,
            cs @ [CallWrite (hname f) (length b) True]))"

text \<open>
  \<^verbatim>\<open>f.Close()\<close>: closes the file; called again it closes nothing and returns an error
  (which both handlers ignore).
\<close>

definition file_Close :: "handle \<Rightarrow> call list \<Rightarrow> handle \<times> call list" where
  "file_Close f cs =
     (if hclosed f then (f, cs @ [CallClose (hname f) False])
      else (f\<lparr>hclosed := True\<rparr>, cs @ [CallClose (hname f) True]))"

text \<open>
  \<^verbatim>\<open>os.Remove(name)\<close>: the file is gone afterwards, or the call fails and the files are
  as they were. Both handlers drop the error it returns.
\<close>

definition os_Remove :: "env \<Rightarrow> string \<Rightarrow> world \<Rightarrow> call list \<Rightarrow> world \<times> call list" where
  "os_Remove e name w cs =
     (if remove_fails e name then (w, cs @ [CallRemove name False])
      else (w\<lparr>files := (files w)(name := None)\<rparr>, cs @ [CallRemove name True]))"

subsection \<open>The streaming upload handler\<close>

text \<open>
  A request message of the stream, and how the stream ends: \<^verbatim>\<open>stream.Recv()\<close> returns
  the messages in order, then \<^verbatim>\<open>io.EOF\<close> or another error.
\<close>

record UploadRequest =
  req_Filename :: string
  req_Content :: string

datatype stream_end = EndOfStream | StreamError

record UploadStatus =
  Message :: string
  Success :: bool
  VideoId :: string

datatype code = Unknown | Internal | ResourceExhausted

datatype rpc_result = Reply UploadStatus | SendError | Status code | Panicked panic

text \<open>The local variables of \<^verbatim>\<open>UploadVideo\<close>, and the calls made so far.\<close>

record session =
  file_var :: "handle option"
  videoID :: string
  fileSize :: nat
  calls :: "call list"

text \<open>
  \<^verbatim>\<open>videoID = fmt.Sprintf("video_%s", filepath.Base(req.Filename))
  videoID = filepath.Base(videoID)\<close>
\<close>

definition grpc_videoID :: "string \<Rightarrow> string" where
  "grpc_videoID name = Base (''video_'' @ Base name)"

text \<open>
  The end-of-stream branch: close the file if there is one, build the job (reading the name
  of the file, which panics on the nil pointer), try to enqueue it, and call
  \<^verbatim>\<open>os.Remove\<close> on the file when the queue refuses it. After an admission the handler returns what
  \<^verbatim>\<open>stream.SendAndClose\<close> returns: nil with the reply sent, or its error.
\<close>

definition on_eof :: "env \<Rightarrow> session \<Rightarrow> world \<Rightarrow> rpc_result \<times> session \<times> world" where
  "on_eof e s w =
     (let (fo, cs) = (case file_var s of
                        None \<Rightarrow> (None, calls s)
                      | Some f \<Rightarrow> (let (f', cs') = file_Close f (calls s) in (Some f', cs')));
          s' = s\<lparr>file_var := fo, calls := cs\<rparr>
      in case fo of
           None \<Rightarrow> (Panicked NilPointerDereference, s', w)
         | Some f \<Rightarrow>
             let job = \<lparr>Filename = hname f, VideoID = videoID s\<rparr>
             in case AddJob (pool w) job of
                  Inl p \<Rightarrow> (Panicked p, s'\<lparr>calls := cs @ [CallAddJob job None]\<rparr>, w)
                | Inr (added, wp) \<Rightarrow>
                    if \<not> added then
                      let (w', cs') = os_Remove e (Filename job) (w\<lparr>pool := wp\<rparr>)
                                        (cs @ [CallAddJob job (Some False)])
                      in (Status ResourceExhausted, s'\<lparr>calls := cs'\<rparr>, w')
                    else
                      (if send_fails e then SendError
                       else Reply \<lparr>Message = ''Upload successful'', Success = True,
                                   VideoId = videoID s\<rparr>,
                       s'\<lparr>calls := cs @ [CallAddJob job (Some True)]\<rparr>, w\<lparr>pool := wp\<rparr>))"

text \<open>The write of one chunk to the open file, and the size count.\<close>

definition write_chunk ::
  "env \<Rightarrow> handle \<Rightarrow> UploadRequest \<Rightarrow> session \<Rightarrow> world \<Rightarrow> bool \<times> session \<times> world" where
  "write_chunk e f req s w =
     (let (ok, w', cs) = file_Write e f (req_Content req) w (calls s)
      in if \<not> ok then (False, s\<lparr>calls := cs\<rparr>, w')
         else (True, s\<lparr>calls := cs, fileSize := fileSize s + length (req_Content req)\<rparr>, w'))"

text \<open>
  The block that creates the file when a message arrives and there is none yet
  (\<^verbatim>\<open>if file == nil { ... }\<close>): the result is the file variable after the block, nil
  when the creation failed.
\<close>

definition ensure_file ::
  "env \<Rightarrow> UploadRequest \<Rightarrow> session \<Rightarrow> world \<Rightarrow> handle option \<times> session \<times> world" where
  "ensure_file e req s w =
     (case file_var s of
        Some f \<Rightarrow> (Some f, s, w)
      | None \<Rightarrow>
          let vid = grpc_videoID (req_Filename req);
              savePath = Join [''uploads'', vid];
              (fo, w1, cs) = os_Create e savePath w (calls s)
          in (fo, s\<lparr>videoID := vid, file_var := fo, calls := cs\<rparr>, w1))"

text \<open>
  The receive loop. Each message is written to the file, which the first message creates;
  a failed creation or write ends the call with \<^verbatim>\<open>codes.Internal\<close>, a stream error with
  \<^verbatim>\<open>codes.Unknown\<close>.
\<close>

fun recv_loop ::
  "env \<Rightarrow> UploadRequest list \<Rightarrow> stream_end \<Rightarrow> session \<Rightarrow> world \<Rightarrow> rpc_result \<times> session \<times> world" where
  "recv_loop e [] EndOfStream s w = on_eof e s w"
| "recv_loop e [] StreamError s w = (Status Unknown, s, w)"
| "recv_loop e (req # reqs) t s w =
     (case ensure_file e req s w of
        (None, s1, w1) \<Rightarrow> (Status Internal, s1, w1)
      | (Some f, s1, w1) \<Rightarrow>
          (case write_chunk e f req s1 w1 of
             (ok, s2, w2) \<Rightarrow>
               if \<not> ok then (Status Internal, s2, w2) else recv_loop e reqs t s2 w2))"

text \<open>
  The deferred \<^verbatim>\<open>file.Close()\<close>, registered when the file was created: it runs when the
  handler returns or panics.
\<close>

definition run_deferred :: "session \<Rightarrow> session" where
  "run_deferred s =
     (case file_var s of
        None \<Rightarrow> s
      | Some f \<Rightarrow> let (f', cs) = file_Close f (calls s) in s\<lparr>file_var := Some f', calls := cs\<rparr>)"

definition new_session :: session where
  "new_session = \<lparr>file_var = None, videoID = [], fileSize = 0, calls = []\<rparr>"

definition UploadVideo ::
  "env \<Rightarrow> UploadRequest list \<Rightarrow> stream_end \<Rightarrow> world \<Rightarrow> rpc_result \<times> session \<times> world" where
  "UploadVideo e reqs t w =
     (let (r, s, w') = recv_loop e reqs t new_session w in (r, run_deferred s, w'))"

subsection \<open>The HTTP upload handler\<close>

record http_request =
  req_Method :: string
  form_video :: "(string \<times> string) option"

definition web_videoID :: "string \<Rightarrow> string" where
  "web_videoID name = ''video_web_'' @ Base name"

text \<open>
  The result is the HTTP status written, or the panic; with the calls made and the world
  after the request. \<^verbatim>\<open>io.Copy\<close> is one write of the uploaded content.
\<close>

definition handleWebUpload ::
  "env \<Rightarrow> http_request \<Rightarrow> world \<Rightarrow> (panic + nat) \<times> call list \<times> world" where
  "handleWebUpload e r w =
     (if req_Method r \<noteq> ''POST'' then (Inr 405, [], w)
      else case form_video r of
        None \<Rightarrow> (Inr 400, [], w)
      | Some (name, data) \<Rightarrow>
          let vid = web_videoID name;
              savePath = Join [''uploads'', vid];
              (fo, w1, cs1) = os_Create e savePath w []
          in case fo of
               None \<Rightarrow> (Inr 500, cs1, w1)
             | Some dst \<Rightarrow>
                 let (ok, w2, cs2) = file_Write e dst data w1 cs1;
                     (dst', cs3) = file_Close dst cs2
                 in if \<not> ok then (Inr 500, cs3, w2)
                    else
                      let job = \<lparr>Filename = savePath, VideoID = vid\<rparr>
                      in case AddJob (pool w2) job of
                           Inl p \<Rightarrow> (Inl p, cs3 @ [CallAddJob job None], w2)
                         | Inr (added, wp) \<Rightarrow>
                             if \<not> added then
                               let (w3, cs4) = os_Remove e savePath (w2\<lparr>pool := wp\<rparr>)
                                                 (cs3 @ [CallAddJob job (Some False)])
                               in (Inr 503, cs4, w3)
                             else (Inr 200, cs3 @ [CallAddJob job (Some True)], w2\<lparr>pool := wp\<rparr>))"

text \<open>An environment in which no call fails.\<close>

definition quiet :: env where
  "quiet = \<lparr>create_fails = (\<lambda>p. False), write_fails = (\<lambda>p n. False),
            remove_fails = (\<lambda>p. False), send_fails = False,
            ffmpeg = (\<lambda>args fs. (True, fs))\<rparr>"

subsection \<open>The listing handler\<close>

text \<open>
  A directory entry as \<^verbatim>\<open>os.ReadDir\<close> returns it, and a Go slice of strings, which is
  nil (\<open>None\<close>) until the first \<^verbatim>\<open>append\<close>.
\<close>

record DirEntry =
  Name :: string
  IsDir :: bool

definition append_slice :: "string list option \<Rightarrow> string \<Rightarrow> string list option" where
  "append_slice sl x = (case sl of None \<Rightarrow> Some [x] | Some xs \<Rightarrow> Some (xs @ [x]))"

text \<open>
  \<^verbatim>\<open>for _, e := range entries {
    if !e.IsDir() && strings.HasSuffix(e.Name(), ".mp4") { videos = append(videos, e.Name()) }
  }\<close>
\<close>

fun collect_videos :: "DirEntry list \<Rightarrow> string list option \<Rightarrow> string list option" where
  "collect_videos [] videos = videos"
| "collect_videos (e # es) videos =
     (if \<not> IsDir e \<and> HasSuffix (Name e) ''.mp4''
      then collect_videos es (append_slice videos (Name e))
      else collect_videos es videos)"

text \<open>
  The JSON value that \<^verbatim>\<open>json.NewEncoder(w).Encode(videos)\<close> writes for a slice of
  strings: \<^verbatim>\<open>null\<close> for the nil slice, an array of strings otherwise.
\<close>

datatype json = JNull | JArray "string list"

definition json_Encode :: "string list option \<Rightarrow> json" where
  "json_Encode sl = (case sl of None \<Rightarrow> JNull | Some xs \<Rightarrow> JArray xs)"

text \<open>
  The response: the status, and the plain-text error or the JSON body. The argument is the
  result of \<^verbatim>\<open>os.ReadDir("uploads")\<close>, \<open>None\<close> for an error.
\<close>

datatype body = Text string | Json json

definition handleListVideos :: "DirEntry list option \<Rightarrow> nat \<times> body" where
  "handleListVideos rd =
     (case rd of
        None \<Rightarrow> (500, Text ''Failed to read uploads'')
      | Some entries \<Rightarrow> (200, Json (json_Encode (collect_videos entries None))))"

text \<open>The names that a listing is to hold: the entries that are not directories and end in \<^verbatim>\<open>.mp4\<close>.\<close>

definition video_names :: "DirEntry list \<Rightarrow> string list" where
  "video_names entries = map Name (filter (\<lambda>e. \<not> IsDir e \<and> HasSuffix (Name e) ''.mp4'') entries)"

subsection \<open>The worker's loop body\<close>

text \<open>
  The two commands of the loop body, and the body itself: the thumbnail command runs only
  after the preview command has succeeded; after either failure the body is over
  (\<^verbatim>\<open>continue\<close>). The external program is the \<open>ffmpeg\<close> parameter of the environment:
  it reads the arguments and the files and returns whether it succeeded, with the files
  it leaves.
\<close>

definition gif_command :: "Job \<Rightarrow> string list" where
  "gif_command job =
     [''ffmpeg'', ''-y'', ''-i'', Filename job, ''-t'', ''5'', ''-vf'', ''fps=10,scale=320:-1'',
      ''uploads/'' @ VideoID job @ ''_preview.gif'']"

definition jpg_command :: "Job \<Rightarrow> string list" where
  "jpg_command job =
     [''ffmpeg'', ''-y'', ''-i'', Filename job, ''-ss'', ''00:00:01'', ''-vframes'', ''1'', ''-vf'',
      ''scale=320:-1'', ''uploads/'' @ VideoID job @ ''_thumbnail.jpg'']"

definition process_job ::
  "env \<Rightarrow> Job \<Rightarrow> (string \<rightharpoonup> string) \<times> call list \<Rightarrow> (string \<rightharpoonup> string) \<times> call list" where
  "process_job e job st =
     (let (fs, cs) = st;
          (ok1, fs1) = ffmpeg e (gif_command job) fs
      in if \<not> ok1 then (fs1, cs @ [CallExec (gif_command job) False])
         else
           let (ok2, fs2) = ffmpeg e (jpg_command job) fs1
           in (fs2, cs @ [CallExec (gif_command job) True, CallExec (jpg_command job) ok2]))"

text \<open>
  One worker alone on a queue: \<^verbatim>\<open>for job := range wp.JobQueue { ... }\<close> takes the jobs
  in order, runs the body on each, and returns when the queue is closed and drained; on a
  queue that is drained and not closed it waits for ever (\<open>None\<close>).
\<close>

function worker ::
  "env \<Rightarrow> chan \<Rightarrow> (string \<rightharpoonup> string) \<times> call list \<Rightarrow>
   (chan \<times> (string \<rightharpoonup> string) \<times> call list) option" where
  "worker e c st =
     (case chanrecv c of
        RecvJob job c' \<Rightarrow> worker e c' (process_job e job st)
      | RecvClosed \<Rightarrow> Some (c, st)
      | RecvWouldBlock \<Rightarrow> None)"
  by pat_completeness auto
termination
  by (relation "measure (\<lambda>(e, c, st). length (chbuf c))")
     (auto simp: chanrecv_def split: list.splits if_splits)

declare worker.simps [simp del]





subsection \<open>Counting calls\<close>

text \<open>
  The calls that created a file, that closed one, and the admissions that the queue
  refused.
\<close>

fun is_created :: "call \<Rightarrow> bool" where
  "is_created (CallCreate name ok) = ok"
| "is_created other = False"

fun is_closed :: "call \<Rightarrow> bool" where
  "is_closed (CallClose name ok) = ok"
| "is_closed other = False"

fun is_rejection :: "call \<Rightarrow> bool" where
  "is_rejection (CallAddJob job res) = (res = Some False)"
| "is_rejection other = False"

definition created :: "call list \<Rightarrow> nat" where
  "created cs = length (filter is_created cs)"

definition closed_count :: "call list \<Rightarrow> nat" where
  "closed_count cs = length (filter is_closed cs)"

definition rejected :: "call list \<Rightarrow> bool" where
  "rejected cs = (filter is_rejection cs \<noteq> [])"

text \<open>
  What holds of the session while the receive loop runs: the pool is untouched, no
  admission has been attempted, and the file variable is nil with no file created, or an
  open file that the session created and that exists.
\<close>

definition receiving :: "WorkerPool \<Rightarrow> session \<Rightarrow> world \<Rightarrow> bool" where
  "receiving wp s w =
     (pool w = wp \<and> \<not> rejected (calls s) \<and> closed_count (calls s) = 0 \<and>
      (case file_var s of
         None \<Rightarrow> created (calls s) = 0
       | Some f \<Rightarrow> \<not> hclosed f \<and> created (calls s) = 1 \<and>
                   CallCreate (hname f) True \<in> set (calls s) \<and> hname f \<in> dom (files w)))"

section \<open>The pool and its callers running together\<close>

text \<open>
  One step of worker \<open>r\<close>, at the granularity of its channel operations.
  \<^verbatim>\<open>func (wp *WorkerPool) worker(id int) {
    defer wp.wg.Done()
    for job := range wp.JobQueue { ... }
  }\<close>
  At the head of the loop the worker receives: it takes the head of the queue, or learns that
  the queue is closed and drained and leaves the loop, or parks. A worker processing a job
  finishes the body and is back at the head of the loop (after either command failed as
  well: \<^verbatim>\<open>continue\<close>). A worker that has left the loop runs the deferred
  \<^verbatim>\<open>wp.wg.Done()\<close> and returns. A parked worker takes no step of its own: a send or the
  close of the channel wakes it. The result is None when the worker has no step.
\<close>

definition worker_step :: "nat \<Rightarrow> WorkerPool \<Rightarrow> WorkerPool option" where
  "worker_step r wp =
     (if length (goroutines wp) \<le> r then None
      else case goroutines wp ! r of
        Ready \<Rightarrow>
          (case chanrecv (JobQueue wp) of
             RecvJob job c \<Rightarrow>
               Some (wp\<lparr>JobQueue := c, goroutines := (goroutines wp)[r := Working job]\<rparr>)
           | RecvClosed \<Rightarrow> Some (wp\<lparr>goroutines := (goroutines wp)[r := Closing]\<rparr>)
           | RecvWouldBlock \<Rightarrow>
               Some (wp\<lparr>JobQueue := (JobQueue wp)\<lparr>recvq := recvq (JobQueue wp) @ [r]\<rparr>,
                        goroutines := (goroutines wp)[r := Parked]\<rparr>))
      | Parked \<Rightarrow> None
      | Working job \<Rightarrow> Some (wp\<lparr>goroutines := (goroutines wp)[r := Ready]\<rparr>)
      | Closing \<Rightarrow> Some (wp\<lparr>wg := wg wp - 1, goroutines := (goroutines wp)[r := Exited]\<rparr>)
      | Exited \<Rightarrow> None)"

text \<open>The job a worker has in hand.\<close>

fun hand :: "wstate \<Rightarrow> Job list" where
  "hand (Working job) = [job]"
| "hand other = []"

text \<open>
  The system: the pool, whether \<^verbatim>\<open>Start\<close> has been called, where the caller of
  \<^verbatim>\<open>Stop\<close> is, and two records kept for the statement of the properties: the jobs for
  which AddJob returned true, and the jobs whose processing a worker has finished.
\<close>

datatype stop_pc = NotCalled | Waiting | Returned

record system =
  the_pool :: WorkerPool
  started :: bool
  stop :: stop_pc
  admitted :: "Job list"
  finished :: "Job list"

text \<open>
  The atomic steps. \<^verbatim>\<open>Start\<close> and \<^verbatim>\<open>Stop\<close> are called by the process once, in
  this order (\<^verbatim>\<open>globalWP.Start(); defer globalWP.Stop()\<close>); AddJob can be called by any
  session at any time; an AddJob that panics leaves the pool as it is. \<^verbatim>\<open>Stop\<close> takes
  two steps: the close of the queue, and the return, which \<^verbatim>\<open>wp.wg.Wait()\<close> allows when
  the counter is zero.
\<close>

datatype event = EvStart | EvAddJob Job | EvWorker nat | EvStopClose | EvStopReturn

definition sys_step :: "event \<Rightarrow> system \<Rightarrow> system option" where
  "sys_step ev s =
     (case ev of
        EvStart \<Rightarrow>
          if started s \<or> stop s \<noteq> NotCalled then None
          else Some (s\<lparr>the_pool := Start (the_pool s), started := True\<rparr>)
      | EvAddJob job \<Rightarrow>
          (case AddJob (the_pool s) job of
             Inl p \<Rightarrow> Some s
           | Inr (added, wp) \<Rightarrow>
               Some (s\<lparr>the_pool := wp,
                       admitted := admitted s @ (if added then [job] else [])\<rparr>))
      | EvWorker r \<Rightarrow>
          (case worker_step r (the_pool s) of
             None \<Rightarrow> None
           | Some wp \<Rightarrow>
               Some (s\<lparr>the_pool := wp,
                       finished := finished s @ hand (goroutines (the_pool s) ! r)\<rparr>))
      | EvStopClose \<Rightarrow>
          if stop s \<noteq> NotCalled then None
          else (case Stop_close (the_pool s) of
                  Inl p \<Rightarrow> None
                | Inr wp \<Rightarrow> Some (s\<lparr>the_pool := wp, stop := Waiting\<rparr>))
      | EvStopReturn \<Rightarrow>
          if stop s = Waiting \<and> Stop_wait_returns (the_pool s) then Some (s\<lparr>stop := Returned\<rparr>)
          else None)"

fun run :: "event list \<Rightarrow> system \<Rightarrow> system option" where
  "run [] s = Some s"
| "run (ev # evs) s = (case sys_step ev s of None \<Rightarrow> None | Some s' \<Rightarrow> run evs s')"

definition init_system :: "WorkerPool \<Rightarrow> system" where
  "init_system wp =
     \<lparr>the_pool = wp, started = False, stop = NotCalled, admitted = [], finished = []\<rparr>"

text \<open>The jobs in the hands of the workers, and the workers that have not returned.\<close>

definition hands :: "wstate list \<Rightarrow> Job multiset" where
  "hands gs = mset (concat (map hand gs))"

definition alive :: "wstate list \<Rightarrow> nat" where
  "alive gs = length (filter (\<lambda>g. g \<noteq> Exited) gs)"

text \<open>What holds in every state the system reaches.\<close>

definition pool_inv :: "int \<Rightarrow> system \<Rightarrow> bool" where
  "pool_inv c s =
     (let wp = the_pool s; q = JobQueue wp; gs = goroutines wp in
      WorkerCount wp = c \<and>
      mset (admitted s) = mset (finished s) + mset (chbuf q) + hands gs \<and>
      wg wp = int (alive gs) \<and>
      distinct (recvq q) \<and>
      (\<forall>r \<in> set (recvq q). r < length gs \<and> gs ! r = Parked) \<and>
      (recvq q \<noteq> [] \<longrightarrow> chbuf q = []) \<and>
      (chclosed q \<longrightarrow> recvq q = []) \<and>
      (Closing \<in> set gs \<or> Exited \<in> set gs \<longrightarrow> chclosed q \<and> chbuf q = []) \<and>
      (chclosed q \<longrightarrow> stop s \<noteq> NotCalled) \<and>
      (started s \<longrightarrow> length gs = nat c) \<and>
      (\<not> started s \<longrightarrow> gs = []) \<and>
      (stop s = Returned \<longrightarrow> alive gs = 0))"

section \<open>Examples\<close>

text \<open>Concrete jobs and a fresh pool of queue capacity \<open>q\<close>, for the examples.\<close>

definition example_job :: "string \<Rightarrow> Job" where
  "example_job n = \<lparr>Filename = ''uploads/video_'' @ n, VideoID = ''video_'' @ n\<rparr>"

definition example_pool :: "nat \<Rightarrow> WorkerPool" where
  "example_pool q =
     \<lparr>JobQueue = \<lparr>chbuf = [], dataqsiz = q, chclosed = False, recvq = []\<rparr>,
      WorkerCount = 2, wg = 0, goroutines = []\<rparr>"

definition example_request :: UploadRequest where
  "example_request = \<lparr>req_Filename = ''a.mp4'', req_Content = ''new''\<rparr>"

definition example_world :: "WorkerPool \<Rightarrow> world" where
  "example_world wp = \<lparr>files = [''uploads/video_a.mp4'' \<mapsto> ''old''], pool = wp\<rparr>"

definition full_pool :: WorkerPool where
  "full_pool = with_queue (example_pool 1) [example_job ''b'']"

definition example_post :: "string \<Rightarrow> http_request" where
  "example_post name = \<lparr>req_Method = ''POST'', form_video = Some (name, ''new'')\<rparr>"

definition example_entries :: "DirEntry list" where
  "example_entries =
     [\<lparr>Name = ''video_a.mp4'', IsDir = False\<rparr>, \<lparr>Name = ''video_a.mp4_preview.gif'', IsDir = False\<rparr>,
      \<lparr>Name = ''video_a.mp4_thumbnail.jpg'', IsDir = False\<rparr>, \<lparr>Name = ''old.mp4'', IsDir = True\<rparr>]"




text \<open>
  A run of a pool of two workers and queue capacity one: four admissions, one of them
  refused, a fifth attempted after the close, and the shutdown.
\<close>

definition example_events :: "event list" where
  "example_events =
     [EvAddJob (example_job ''a''), EvStart, EvWorker 0, EvWorker 1, EvAddJob (example_job ''b''),
      EvWorker 0, EvAddJob (example_job ''c''), EvAddJob (example_job ''d''), EvStopClose,
      EvAddJob (example_job ''e''), EvWorker 1, EvWorker 1, EvWorker 1, EvWorker 1, EvWorker 1,
      EvWorker 0, EvWorker 0, EvStopReturn]"

definition example_final :: system where
  "example_final =
     \<lparr>the_pool = \<lparr>JobQueue = \<lparr>chbuf = [], dataqsiz = 1, chclosed = True, recvq = []\<rparr>,
                   WorkerCount = 2, wg = 0, goroutines = [Exited, Exited]\<rparr>,
      started = True, stop = Returned,
      admitted = [example_job ''a'', example_job ''b'', example_job ''c''],
      finished = [example_job ''a'', example_job ''b'', example_job ''c'']\<rparr>"

section \<open>Properties of the admission queue\<close>

lemma AddJob_open:
  "\<not> chclosed (JobQueue wp) \<Longrightarrow> recvq (JobQueue wp) = [] \<Longrightarrow>
   AddJob wp job =
     (if length (chbuf (JobQueue wp)) < dataqsiz (JobQueue wp)
      then Inr (True, with_queue wp (chbuf (JobQueue wp) @ [job]))
      else Inr (False, wp))"
  by (simp add: AddJob_def chansend_nb_def with_queue_def)









text \<open>
  Claim C3, as stated, fails: once \<^verbatim>\<open>Stop\<close> has closed the queue, AddJob does not return
  false; the send on the closed channel panics.
\<close>

theorem C3_AddJob_after_close_counterexample:
  "Stop_close (example_pool 5) = Inr ((example_pool 5)\<lparr>JobQueue := (JobQueue (example_pool 5))\<lparr>chclosed := True\<rparr>\<rparr>)
   \<and> AddJob ((example_pool 5)\<lparr>JobQueue := (JobQueue (example_pool 5))\<lparr>chclosed := True\<rparr>\<rparr>)
        (example_job ''a'') = Inl SendOnClosedChannel"
  by (simp add: Stop_close_def closechan_def wake_def AddJob_def chansend_nb_def example_pool_def)

text \<open>
  Claim C3, amended. AddJob faults exactly when the queue has been closed: on every queue
  that is not closed it returns a boolean, and on a closed queue it panics with
  "send on closed channel".
\<close>

theorem C3_AddJob_faults_iff_closed:
  "(chclosed (JobQueue wp) \<longrightarrow> AddJob wp job = Inl SendOnClosedChannel) \<and>
   (\<not> chclosed (JobQueue wp) \<longrightarrow> (\<exists>b wp'. AddJob wp job = Inr (b, wp')))"
  by (auto simp: AddJob_def chansend_nb_def split: list.splits)

text \<open>The same pool before and after the close.\<close>

theorem C3_AddJob_faults_iff_closed_witness:
  "\<not> chclosed (JobQueue (example_pool 5)) \<and>
   (\<exists>b wp'. AddJob (example_pool 5) (example_job ''a'') = Inr (b, wp')) \<and>
   chclosed (JobQueue ((example_pool 5)\<lparr>JobQueue := (JobQueue (example_pool 5))\<lparr>chclosed := True\<rparr>\<rparr>)) \<and>
   AddJob ((example_pool 5)\<lparr>JobQueue := (JobQueue (example_pool 5))\<lparr>chclosed := True\<rparr>\<rparr>)
        (example_job ''a'') = Inl SendOnClosedChannel"
  using C3_AddJob_faults_iff_closed [of "example_pool 5" "example_job ''a''"]
    C3_AddJob_faults_iff_closed [of "(example_pool 5)\<lparr>JobQueue := (JobQueue (example_pool 5))\<lparr>chclosed := True\<rparr>\<rparr>" "example_job ''a''"]
  by (simp add: example_pool_def)

section \<open>Properties of the upload handlers\<close>

lemma AddJob_panic: "AddJob wp job = Inl p \<Longrightarrow> p = SendOnClosedChannel"
  by (auto simp: AddJob_def split: send_result.splits)

lemma AddJob_refused: "AddJob wp job = Inr (False, wp') \<Longrightarrow> wp' = wp"
  by (auto simp: AddJob_def split: send_result.splits)

lemma count_simps:
  "created (cs @ [c]) = created cs + (if is_created c then 1 else 0)"
  "closed_count (cs @ [c]) = closed_count cs + (if is_closed c then 1 else 0)"
  "rejected (cs @ [c]) = (rejected cs \<or> is_rejection c)"
  "created [] = 0" "closed_count [] = 0" "\<not> rejected []"
  by (simp_all add: created_def closed_count_def rejected_def)

lemma ensure_file_cases:
  assumes "ensure_file e req s w = (fo, s1, w1)"
  shows "(\<exists>f. file_var s = Some f \<and> fo = Some f \<and> s1 = s \<and> w1 = w) \<or>
         (file_var s = None \<and> fo = None \<and> w1 = w \<and>
          create_fails e (Join [''uploads'', grpc_videoID (req_Filename req)]) \<and>
          s1 = s\<lparr>videoID := grpc_videoID (req_Filename req), file_var := None,
                 calls := calls s @
                   [CallCreate (Join [''uploads'', grpc_videoID (req_Filename req)]) False]\<rparr>) \<or>
         (file_var s = None \<and>
          \<not> create_fails e (Join [''uploads'', grpc_videoID (req_Filename req)]) \<and>
          fo = Some \<lparr>hname = Join [''uploads'', grpc_videoID (req_Filename req)],
                     hclosed = False\<rparr> \<and>
          w1 = w\<lparr>files := (files w)(Join [''uploads'', grpc_videoID (req_Filename req)] \<mapsto> [])\<rparr> \<and>
          s1 = s\<lparr>videoID := grpc_videoID (req_Filename req), file_var := fo,
                 calls := calls s @
                   [CallCreate (Join [''uploads'', grpc_videoID (req_Filename req)]) True]\<rparr>)"
  using assms
  by (cases "file_var s") (auto simp: ensure_file_def os_Create_def Let_def split: if_splits)

lemma ensure_file_receiving:
  "receiving wp s w \<Longrightarrow> ensure_file e req s w = (fo, s1, w1) \<Longrightarrow>
   receiving wp s1 w1 \<and> file_var s1 = fo"
  by (drule ensure_file_cases) (auto simp: receiving_def count_simps)

lemma write_chunk_cases:
  "write_chunk e f req s w = (ok, s', w') \<Longrightarrow>
   file_var s' = file_var s \<and> videoID s' = videoID s \<and> pool w' = pool w \<and>
   dom (files w') = dom (files w) \<and>
   (\<exists>n. calls s' = calls s @ [CallWrite (hname f) n ok])"
  by (auto simp: write_chunk_def file_Write_def Let_def split: if_splits prod.splits option.splits)

lemma write_chunk_receiving:
  "receiving wp s w \<Longrightarrow> write_chunk e f req s w = (ok, s2, w2) \<Longrightarrow> receiving wp s2 w2"
  by (drule write_chunk_cases) (auto simp: receiving_def count_simps split: option.splits)

text \<open>The ways out of the receive loop.\<close>

lemma recv_loop_exit:
  "receiving wp s w \<Longrightarrow> recv_loop e reqs t s w = (r, s', w') \<Longrightarrow>
   \<exists>s0 w0. receiving wp s0 w0 \<and> (reqs \<noteq> [] \<longrightarrow> calls s0 \<noteq> []) \<and>
     (t = EndOfStream \<and> (reqs \<noteq> [] \<longrightarrow> file_var s0 \<noteq> None) \<and> on_eof e s0 w0 = (r, s', w') \<or>
      (r = Status Unknown \<or> r = Status Internal) \<and> s' = s0 \<and> w' = w0)"
proof (induction reqs arbitrary: s w)
  case Nil
  then show ?case by (cases t) auto
next
  case (Cons req reqs)
  obtain fo s1 w1 where ef: "ensure_file e req s w = (fo, s1, w1)"
    by (cases "ensure_file e req s w") auto
  note r1 = ensure_file_receiving [OF Cons.prems(1) ef]
  have c1: "calls s1 \<noteq> [] \<or> s1 = s" using ensure_file_cases [OF ef] by auto
  show ?case
  proof (cases fo)
    case None
    then have "r = Status Internal" "s' = s1" "w' = w1" "calls s1 \<noteq> []"
      using Cons.prems(2) ef ensure_file_cases [OF ef] by auto
    then show ?thesis using r1 by blast
  next
    case (Some f)
    obtain ok s2 w2 where wc: "write_chunk e f req s1 w1 = (ok, s2, w2)"
      by (cases "write_chunk e f req s1 w1") auto
    have r2: "receiving wp s2 w2" using write_chunk_receiving [OF _ wc] r1 by blast
    have f2: "file_var s2 = Some f" "calls s2 \<noteq> []"
      using write_chunk_cases [OF wc] r1 Some by auto
    show ?thesis
    proof (cases ok)
      case False
      then have "r = Status Internal" "s' = s2" "w' = w2"
        using Cons.prems(2) ef Some wc by auto
      then show ?thesis using r2 f2 by blast
    next
      case True
      then have "recv_loop e reqs t s2 w2 = (r, s', w')"
        using Cons.prems(2) ef Some wc by simp
      from Cons.IH [OF r2 this] obtain s0 w0 where
        h: "receiving wp s0 w0" "reqs \<noteq> [] \<longrightarrow> calls s0 \<noteq> []"
          "t = EndOfStream \<and> (reqs \<noteq> [] \<longrightarrow> file_var s0 \<noteq> None) \<and> on_eof e s0 w0 = (r, s', w') \<or>
           (r = Status Unknown \<or> r = Status Internal) \<and> s' = s0 \<and> w' = w0"
        by blast
      show ?thesis
      proof (cases reqs)
        case Nil
        then have e2: "t = EndOfStream \<and> on_eof e s2 w2 = (r, s', w') \<or>
                  r = Status Unknown \<and> s' = s2 \<and> w' = w2"
          using \<open>recv_loop e reqs t s2 w2 = (r, s', w')\<close> by (cases t) auto
        then show ?thesis using r2 f2 by blast
      next
        case (Cons a list)
        then show ?thesis using h by blast
      qed
    qed
  qed
qed

lemma receiving_new: "receiving (pool w) new_session w"
  by (simp add: receiving_def new_session_def count_simps)

lemma on_eof_cases:
  assumes rc: "receiving wp s0 w0" and eof: "on_eof e s0 w0 = (r, s', w')"
  shows "(file_var s0 = None \<and> r = Panicked NilPointerDereference \<and>
          file_var s' = None \<and> calls s' = calls s0 \<and> w' = w0) \<or>
         (\<exists>f job cs. file_var s0 = Some f \<and> file_var s' = Some (f\<lparr>hclosed := True\<rparr>) \<and>
            job = \<lparr>Filename = hname f, VideoID = videoID s0\<rparr> \<and>
            cs = calls s0 @ [CallClose (hname f) True] \<and>
            ((AddJob wp job = Inl SendOnClosedChannel \<and> r = Panicked SendOnClosedChannel \<and>
              calls s' = cs @ [CallAddJob job None] \<and> w' = w0) \<or>
             (\<exists>wp'. AddJob wp job = Inr (True, wp') \<and>
              r = (if send_fails e then SendError
                   else Reply \<lparr>Message = ''Upload successful'', Success = True,
                               VideoId = videoID s0\<rparr>) \<and>
              calls s' = cs @ [CallAddJob job (Some True)] \<and> w' = w0\<lparr>pool := wp'\<rparr>) \<or>
             (AddJob wp job = Inr (False, wp) \<and> r = Status ResourceExhausted \<and>
              calls s' = cs @ [CallAddJob job (Some False),
                               CallRemove (hname f) (\<not> remove_fails e (hname f))] \<and>
              hname f \<in> dom (files w0) \<and>
              w' = (if remove_fails e (hname f) then w0
                    else w0\<lparr>files := (files w0)(hname f := None)\<rparr>))))"
proof (cases "file_var s0")
  case None
  then show ?thesis using eof by (auto simp: on_eof_def)
next
  case (Some f)
  have open_f: "\<not> hclosed f" and pw: "pool w0 = wp" and ex: "hname f \<in> dom (files w0)"
    using rc Some by (auto simp: receiving_def)
  let ?job = "\<lparr>Filename = hname f, VideoID = videoID s0\<rparr>"
  show ?thesis
  proof (cases "AddJob wp ?job")
    case (Inl p)
    then have "p = SendOnClosedChannel" by (rule AddJob_panic)
    then show ?thesis using eof Some open_f pw Inl
      by (auto simp: on_eof_def file_Close_def)
  next
    case (Inr res)
    obtain added wp' where res: "res = (added, wp')" by (cases res)
    show ?thesis
    proof (cases added)
      case True
      then show ?thesis using eof Some open_f pw Inr res
        by (auto simp: on_eof_def file_Close_def)
    next
      case False
      then have "wp' = wp" using Inr res by (auto dest: AddJob_refused)
      then show ?thesis using eof Some open_f pw ex Inr res False
        by (auto simp: on_eof_def file_Close_def os_Remove_def)
    qed
  qed
qed

text \<open>Every way the handler can end, with the deferred call run.\<close>

lemma UploadVideo_cases:
  assumes up: "UploadVideo e reqs t w = (r, s, w')"
  shows "\<exists>s0 w0. receiving (pool w) s0 w0 \<and> (reqs \<noteq> [] \<longrightarrow> calls s0 \<noteq> []) \<and>
     ((t = EndOfStream \<and> reqs = [] \<and> file_var s0 = None \<and> r = Panicked NilPointerDereference \<and>
        file_var s = None \<and> calls s = calls s0 \<and> w' = w0) \<or>
      (\<exists>f job cs. t = EndOfStream \<and> file_var s0 = Some f \<and>
         file_var s = Some (f\<lparr>hclosed := True\<rparr>) \<and>
         job = \<lparr>Filename = hname f, VideoID = videoID s0\<rparr> \<and>
         cs = calls s0 @ [CallClose (hname f) True] \<and>
         ((AddJob (pool w) job = Inl SendOnClosedChannel \<and> r = Panicked SendOnClosedChannel \<and>
           calls s = cs @ [CallAddJob job None, CallClose (hname f) False] \<and> w' = w0) \<or>
          (\<exists>wp'. AddJob (pool w) job = Inr (True, wp') \<and>
           r = (if send_fails e then SendError
                   else Reply \<lparr>Message = ''Upload successful'', Success = True,
                               VideoId = videoID s0\<rparr>) \<and>
           calls s = cs @ [CallAddJob job (Some True), CallClose (hname f) False] \<and>
           w' = w0\<lparr>pool := wp'\<rparr>) \<or>
          (AddJob (pool w) job = Inr (False, pool w) \<and> r = Status ResourceExhausted \<and>
           calls s = cs @ [CallAddJob job (Some False),
                           CallRemove (hname f) (\<not> remove_fails e (hname f)),
                           CallClose (hname f) False] \<and>
           hname f \<in> dom (files w0) \<and>
           w' = (if remove_fails e (hname f) then w0
                 else w0\<lparr>files := (files w0)(hname f := None)\<rparr>)))) \<or>
      ((r = Status Unknown \<or> r = Status Internal) \<and> file_var s0 = None \<and>
         file_var s = None \<and> calls s = calls s0 \<and> w' = w0) \<or>
      (\<exists>f. (r = Status Unknown \<or> r = Status Internal) \<and> file_var s0 = Some f \<and>
         file_var s = Some (f\<lparr>hclosed := True\<rparr>) \<and>
         calls s = calls s0 @ [CallClose (hname f) True] \<and> w' = w0))"
proof -
  obtain s1 where rl: "recv_loop e reqs t new_session w = (r, s1, w')" and s: "s = run_deferred s1"
    using up by (auto simp: UploadVideo_def split: prod.splits)
  from recv_loop_exit [OF receiving_new rl] obtain s0 w0 where
    rc: "receiving (pool w) s0 w0" and ne: "reqs \<noteq> [] \<longrightarrow> calls s0 \<noteq> []" and
    ex: "t = EndOfStream \<and> (reqs \<noteq> [] \<longrightarrow> file_var s0 \<noteq> None) \<and> on_eof e s0 w0 = (r, s1, w') \<or>
         (r = Status Unknown \<or> r = Status Internal) \<and> s1 = s0 \<and> w' = w0"
    by blast
  from ex show ?thesis
  proof
    assume a: "t = EndOfStream \<and> (reqs \<noteq> [] \<longrightarrow> file_var s0 \<noteq> None) \<and> on_eof e s0 w0 = (r, s1, w')"
    then have eof: "on_eof e s0 w0 = (r, s1, w')" by simp
    from on_eof_cases [OF rc eof] show ?thesis
    proof
      assume n: "file_var s0 = None \<and> r = Panicked NilPointerDereference \<and>
          file_var s1 = None \<and> calls s1 = calls s0 \<and> w' = w0"
      then have "file_var s = None" "calls s = calls s0"
        using s by (simp_all add: run_deferred_def)
      then show ?thesis using rc ne a n by (intro exI [of _ s0] exI [of _ w0]) auto
    next
      assume "\<exists>f job cs. file_var s0 = Some f \<and> file_var s1 = Some (f\<lparr>hclosed := True\<rparr>) \<and>
            job = \<lparr>Filename = hname f, VideoID = videoID s0\<rparr> \<and>
            cs = calls s0 @ [CallClose (hname f) True] \<and>
            ((AddJob (pool w) job = Inl SendOnClosedChannel \<and> r = Panicked SendOnClosedChannel \<and>
              calls s1 = cs @ [CallAddJob job None] \<and> w' = w0) \<or>
             (\<exists>wp'. AddJob (pool w) job = Inr (True, wp') \<and>
              r = (if send_fails e then SendError
                   else Reply \<lparr>Message = ''Upload successful'', Success = True,
                               VideoId = videoID s0\<rparr>) \<and>
              calls s1 = cs @ [CallAddJob job (Some True)] \<and> w' = w0\<lparr>pool := wp'\<rparr>) \<or>
             (AddJob (pool w) job = Inr (False, pool w) \<and> r = Status ResourceExhausted \<and>
              calls s1 = cs @ [CallAddJob job (Some False),
                               CallRemove (hname f) (\<not> remove_fails e (hname f))] \<and>
              hname f \<in> dom (files w0) \<and>
              w' = (if remove_fails e (hname f) then w0
                    else w0\<lparr>files := (files w0)(hname f := None)\<rparr>)))"
      then obtain f where
        f: "file_var s0 = Some f" "file_var s1 = Some (f\<lparr>hclosed := True\<rparr>)" and
        alt: "(AddJob (pool w) \<lparr>Filename = hname f, VideoID = videoID s0\<rparr> = Inl SendOnClosedChannel \<and>
              r = Panicked SendOnClosedChannel \<and>
              calls s1 = (calls s0 @ [CallClose (hname f) True]) @
                 [CallAddJob \<lparr>Filename = hname f, VideoID = videoID s0\<rparr> None] \<and> w' = w0) \<or>
             (\<exists>wp'. AddJob (pool w) \<lparr>Filename = hname f, VideoID = videoID s0\<rparr> = Inr (True, wp') \<and>
              r = (if send_fails e then SendError
                   else Reply \<lparr>Message = ''Upload successful'', Success = True,
                               VideoId = videoID s0\<rparr>) \<and>
              calls s1 = (calls s0 @ [CallClose (hname f) True]) @
                 [CallAddJob \<lparr>Filename = hname f, VideoID = videoID s0\<rparr> (Some True)] \<and>
              w' = w0\<lparr>pool := wp'\<rparr>) \<or>
             (AddJob (pool w) \<lparr>Filename = hname f, VideoID = videoID s0\<rparr> = Inr (False, pool w) \<and>
              r = Status ResourceExhausted \<and>
              calls s1 = (calls s0 @ [CallClose (hname f) True]) @
                 [CallAddJob \<lparr>Filename = hname f, VideoID = videoID s0\<rparr> (Some False),
                  CallRemove (hname f) (\<not> remove_fails e (hname f))] \<and>
              hname f \<in> dom (files w0) \<and>
              w' = (if remove_fails e (hname f) then w0
                    else w0\<lparr>files := (files w0)(hname f := None)\<rparr>))"
        by (elim exE conjE) (rule that, assumption, assumption, simp)
      have sf: "file_var s = Some (f\<lparr>hclosed := True\<rparr>)"
        "calls s = calls s1 @ [CallClose (hname f) False]"
        using s f by (simp_all add: run_deferred_def file_Close_def)
      show ?thesis using rc ne a f sf alt by (intro exI [of _ s0] exI [of _ w0]) auto
    qed
  next
    assume b: "(r = Status Unknown \<or> r = Status Internal) \<and> s1 = s0 \<and> w' = w0"
    show ?thesis
    proof (cases "file_var s0")
      case None
      then have "file_var s = None" "calls s = calls s0"
        using s b by (simp_all add: run_deferred_def)
      then show ?thesis using rc ne b None by (intro exI [of _ s0] exI [of _ w0]) auto
    next
      case (Some f)
      then have "\<not> hclosed f" using rc by (simp add: receiving_def)
      then have "file_var s = Some (f\<lparr>hclosed := True\<rparr>)"
        "calls s = calls s0 @ [CallClose (hname f) True]"
        using s b Some by (simp_all add: run_deferred_def file_Close_def)
      then show ?thesis using rc ne b Some by (intro exI [of _ s0] exI [of _ w0]) auto
    qed
  qed
qed

lemma on_eof_calls_prefix: "on_eof e s w = (r, s', w') \<Longrightarrow> \<exists>cs. calls s' = calls s @ cs"
  by (auto simp: on_eof_def file_Close_def os_Remove_def Let_def
      split: option.splits prod.splits sum.splits if_splits)

lemma recv_loop_calls_prefix:
  "recv_loop e reqs t s w = (r, s', w') \<Longrightarrow> \<exists>cs. calls s' = calls s @ cs"
proof (induction reqs arbitrary: s w)
  case Nil
  then show ?case by (cases t) (auto dest: on_eof_calls_prefix)
next
  case (Cons req reqs)
  obtain fo s1 w1 where ef: "ensure_file e req s w = (fo, s1, w1)"
    by (cases "ensure_file e req s w") auto
  have p1: "\<exists>cs. calls s1 = calls s @ cs" using ensure_file_cases [OF ef] by auto
  show ?case
  proof (cases fo)
    case None
    then show ?thesis using Cons.prems ef p1 by auto
  next
    case (Some f)
    obtain ok s2 w2 where wc: "write_chunk e f req s1 w1 = (ok, s2, w2)"
      by (cases "write_chunk e f req s1 w1") auto
    have p2: "\<exists>cs. calls s2 = calls s @ cs" using write_chunk_cases [OF wc] p1 by auto
    show ?thesis
    proof (cases ok)
      case False
      then show ?thesis using Cons.prems ef Some wc p2 by auto
    next
      case True
      then have "recv_loop e reqs t s2 w2 = (r, s', w')" using Cons.prems ef Some wc by simp
      from Cons.IH [OF this] p2 show ?thesis by auto
    qed
  qed
qed

lemma UploadVideo_first_call:
  assumes "UploadVideo e (req # reqs) t w = (r, s, w')"
  shows "\<exists>cs. calls s =
           CallCreate (Join [''uploads'', grpc_videoID (req_Filename req)])
             (\<not> create_fails e (Join [''uploads'', grpc_videoID (req_Filename req)])) # cs"
proof -
  let ?p = "Join [''uploads'', grpc_videoID (req_Filename req)]"
  obtain s1 where rl: "recv_loop e (req # reqs) t new_session w = (r, s1, w')"
    and s: "s = run_deferred s1"
    using assms by (auto simp: UploadVideo_def split: prod.splits)
  obtain fo s2 w2 where ef: "ensure_file e req new_session w = (fo, s2, w2)"
    by (cases "ensure_file e req new_session w") auto
  have c2: "calls s2 = [CallCreate ?p (\<not> create_fails e ?p)]"
    using ensure_file_cases [OF ef] by (auto simp: new_session_def)
  have "\<exists>cs. calls s1 = calls s2 @ cs"
  proof (cases fo)
    case None
    then show ?thesis using rl ef by auto
  next
    case (Some f)
    obtain ok s3 w3 where wc: "write_chunk e f req s2 w2 = (ok, s3, w3)"
      by (cases "write_chunk e f req s2 w2") auto
    have p3: "\<exists>cs. calls s3 = calls s2 @ cs" using write_chunk_cases [OF wc] by auto
    show ?thesis
    proof (cases ok)
      case False
      then show ?thesis using rl ef Some wc p3 by auto
    next
      case True
      then have "recv_loop e reqs t s3 w3 = (r, s1, w')" using rl ef Some wc by simp
      from recv_loop_calls_prefix [OF this] p3 show ?thesis by auto
    qed
  qed
  moreover have "\<exists>cs. calls s = calls s1 @ cs"
    using s by (auto simp: run_deferred_def file_Close_def split: option.splits)
  ultimately show ?thesis using c2 by auto
qed

text \<open>
  Claim C10. When the stream ends before any message has been received, the handler reads
  the name of the nil file while it builds the job, and panics; the handler ends with this
  nil-pointer panic in no other case: a stream that delivered at least one message never
  does.
\<close>

theorem C10_eof_before_first_chunk:
  "fst (UploadVideo e [] EndOfStream w) = Panicked NilPointerDereference \<and>
   (fst (UploadVideo e reqs t w) = Panicked NilPointerDereference) =
     (reqs = [] \<and> t = EndOfStream)"
proof -
  have a: "fst (UploadVideo e [] EndOfStream w) = Panicked NilPointerDereference"
    by (simp add: UploadVideo_def on_eof_def new_session_def)
  obtain r s w' where up: "UploadVideo e reqs t w = (r, s, w')"
    by (cases "UploadVideo e reqs t w") auto
  have "(r = Panicked NilPointerDereference) = (reqs = [] \<and> t = EndOfStream)"
  proof (cases "reqs = [] \<and> t = EndOfStream")
    case True
    then show ?thesis using a up by simp
  next
    case False
    then show ?thesis using UploadVideo_cases [OF up] by (auto split: if_splits)
  qed
  then show ?thesis using a up by simp
qed

text \<open>
  Claim C5. In every streaming session, however it ends (end of stream, stream error,
  failed creation or write, refused admission, panic), at most one file is created, by the
  first message received and under the name derived from that message; and a file that was
  created has been closed exactly once when the handler is left, and is closed then.
  Closing is counted by the calls that closed the file: where the handler calls
  \<^verbatim>\<open>Close\<close> at the end of the stream and the deferred call follows, the second call
  finds the file closed and closes nothing.
\<close>

theorem C5_handle_created_once_closed_once:
  assumes "UploadVideo e reqs t w = (r, s, w')"
  shows "created (calls s) \<le> 1 \<and> closed_count (calls s) = created (calls s) \<and>
     (case file_var s of
        None \<Rightarrow> created (calls s) = 0
      | Some f \<Rightarrow> hclosed f \<and> created (calls s) = 1 \<and> reqs \<noteq> [] \<and>
          hd (calls s) = CallCreate (Join [''uploads'', grpc_videoID (req_Filename (hd reqs))]) True)"
proof -
  have counts: "created (calls s) \<le> 1 \<and> closed_count (calls s) = created (calls s) \<and>
     (case file_var s of None \<Rightarrow> created (calls s) = 0
      | Some f \<Rightarrow> hclosed f \<and> created (calls s) = 1)"
    using UploadVideo_cases [OF assms]
    by (elim exE conjE disjE) (auto simp: receiving_def created_def closed_count_def)
  show ?thesis
  proof (cases "file_var s")
    case None
    then show ?thesis using counts by simp
  next
    case (Some f)
    then have one: "created (calls s) = 1" using counts by simp
    have ne: "reqs \<noteq> []"
    proof
      assume "reqs = []"
      then have "created (calls s) = 0"
        using assms
        by (cases t) (auto simp: UploadVideo_def on_eof_def new_session_def run_deferred_def
            created_def)
      then show False using one by simp
    qed
    then obtain req rs where reqs: "reqs = req # rs" by (cases reqs) auto
    from UploadVideo_first_call [OF assms [unfolded reqs]] obtain cs where
      cs: "calls s = CallCreate (Join [''uploads'', grpc_videoID (req_Filename req)])
             (\<not> create_fails e (Join [''uploads'', grpc_videoID (req_Filename req)])) # cs"
      by blast
    have "\<not> create_fails e (Join [''uploads'', grpc_videoID (req_Filename req)])"
    proof
      assume cf: "create_fails e (Join [''uploads'', grpc_videoID (req_Filename req)])"
      then have "file_var s = None"
        using assms reqs
        by (auto simp: UploadVideo_def ensure_file_def os_Create_def new_session_def
            run_deferred_def Let_def)
      then show False using Some by simp
    qed
    then show ?thesis using counts Some ne cs reqs by simp
  qed
qed

lemma path_evals:
  "Join [''uploads'', grpc_videoID ''a.mp4''] = ''uploads/video_a.mp4''"
  "grpc_videoID ''a.mp4'' = ''video_a.mp4''"
  "Join [''uploads'', web_videoID ''a.mp4''] = ''uploads/video_web_a.mp4''"
  "web_videoID ''a.mp4'' = ''video_web_a.mp4''"
  "web_videoID ''/'' = ''video_web_/''"
  "Join [''uploads'', web_videoID ''/''] = ''uploads/video_web_''"
  "grpc_videoID ''/'' = ''video_''"
  "Join [''uploads'', ''video_a.mp4''] = ''uploads/video_a.mp4''"
  "Join [''uploads'', ''video_web_a.mp4''] = ''uploads/video_web_a.mp4''"
  "Join [''uploads'', ''video_web_/''] = ''uploads/video_web_''"
  by (simp_all add: Join.simps Clean_def clean_elem_def grpc_videoID_def web_videoID_def Base_def
      strip_trailing_slashes_def last_element_def IsPathSeparator_def)

lemma UploadVideo_example:
  "UploadVideo quiet [example_request] EndOfStream (example_world (example_pool 5)) =
    (Reply \<lparr>Message = ''Upload successful'', Success = True, VideoId = ''video_a.mp4''\<rparr>,
     \<lparr>file_var = Some \<lparr>hname = ''uploads/video_a.mp4'', hclosed = True\<rparr>,
        videoID = ''video_a.mp4'', fileSize = 3,
        calls = [CallCreate ''uploads/video_a.mp4'' True, CallWrite ''uploads/video_a.mp4'' 3 True,
                 CallClose ''uploads/video_a.mp4'' True,
                 CallAddJob \<lparr>Filename = ''uploads/video_a.mp4'', VideoID = ''video_a.mp4''\<rparr> (Some True),
                 CallClose ''uploads/video_a.mp4'' False]\<rparr>,
     \<lparr>files = [''uploads/video_a.mp4'' \<mapsto> ''new''],
        pool = with_queue (example_pool 5)
                 [\<lparr>Filename = ''uploads/video_a.mp4'', VideoID = ''video_a.mp4''\<rparr>]\<rparr>)"
  by (simp add: UploadVideo_def ensure_file_def os_Create_def write_chunk_def file_Write_def
      file_size_def on_eof_def file_Close_def AddJob_def chansend_nb_def run_deferred_def
      new_session_def quiet_def example_request_def example_world_def example_pool_def full_pool_def
      with_queue_def path_evals Let_def)








text \<open>A session that is admitted: one creation, two calls of Close, one of them closing.\<close>

theorem C5_handle_created_once_closed_once_witness:
  "UploadVideo quiet [example_request] EndOfStream (example_world (example_pool 5)) =
    (Reply \<lparr>Message = ''Upload successful'', Success = True, VideoId = ''video_a.mp4''\<rparr>,
     \<lparr>file_var = Some \<lparr>hname = ''uploads/video_a.mp4'', hclosed = True\<rparr>,
        videoID = ''video_a.mp4'', fileSize = 3,
        calls = [CallCreate ''uploads/video_a.mp4'' True, CallWrite ''uploads/video_a.mp4'' 3 True,
                 CallClose ''uploads/video_a.mp4'' True,
                 CallAddJob \<lparr>Filename = ''uploads/video_a.mp4'', VideoID = ''video_a.mp4''\<rparr> (Some True),
                 CallClose ''uploads/video_a.mp4'' False]\<rparr>,
     \<lparr>files = [''uploads/video_a.mp4'' \<mapsto> ''new''],
        pool = with_queue (example_pool 5)
                 [\<lparr>Filename = ''uploads/video_a.mp4'', VideoID = ''video_a.mp4''\<rparr>]\<rparr>) \<and>
   created [CallCreate ''uploads/video_a.mp4'' True, CallWrite ''uploads/video_a.mp4'' 3 True,
            CallClose ''uploads/video_a.mp4'' True,
            CallAddJob \<lparr>Filename = ''uploads/video_a.mp4'', VideoID = ''video_a.mp4''\<rparr> (Some True),
            CallClose ''uploads/video_a.mp4'' False] = 1 \<and>
   closed_count [CallCreate ''uploads/video_a.mp4'' True, CallWrite ''uploads/video_a.mp4'' 3 True,
            CallClose ''uploads/video_a.mp4'' True,
            CallAddJob \<lparr>Filename = ''uploads/video_a.mp4'', VideoID = ''video_a.mp4''\<rparr> (Some True),
            CallClose ''uploads/video_a.mp4'' False] = 1"
  using C5_handle_created_once_closed_once [OF UploadVideo_example] UploadVideo_example
  by (simp add: created_def closed_count_def)





subsection \<open>The derived identifier\<close>

lemma Base_no_separator:
  "CHR ''/'' \<in> set (Base path) \<Longrightarrow> Base path = ''/''"
proof -
  have "CHR ''/'' \<notin> set (last_element q)" for q
    using set_takeWhileD [of "CHR ''/''" "\<lambda>c. \<not> IsPathSeparator c" "rev q"]
    by (auto simp: last_element_def IsPathSeparator_def)
  then show "CHR ''/'' \<in> set (Base path) \<Longrightarrow> Base path = ''/''"
    by (auto simp: Base_def Let_def split: if_splits)
qed

lemma last_element_nonempty:
  "\<not> IsPathSeparator c \<Longrightarrow> last_element (strip_trailing_slashes (c # cs)) \<noteq> []"
proof -
  assume c: "\<not> IsPathSeparator c"
  let ?d = "dropWhile IsPathSeparator (rev (c # cs))"
  have "c \<in> set (rev (c # cs))" by simp
  then have ne: "?d \<noteq> []" using c by (metis dropWhile_eq_Nil_conv)
  then have "\<not> IsPathSeparator (hd ?d)" by (rule hd_dropWhile)
  then have "takeWhile (\<lambda>c. \<not> IsPathSeparator c) ?d \<noteq> []"
    using ne by (cases ?d) auto
  then show ?thesis by (simp add: last_element_def strip_trailing_slashes_def)
qed

lemma last_element_no_separator: "CHR ''/'' \<notin> set (last_element q)"
  using set_takeWhileD [of "CHR ''/''" "\<lambda>c. \<not> IsPathSeparator c" "rev q"]
  by (auto simp: last_element_def IsPathSeparator_def)

lemma Base_Cons_no_separator:
  assumes "\<not> IsPathSeparator c"
  shows "CHR ''/'' \<notin> set (Base (c # cs))"
proof -
  have "Base (c # cs) = last_element (strip_trailing_slashes (c # cs))"
    using last_element_nonempty [OF assms, of cs] by (simp add: Base_def Let_def)
  then show ?thesis by (simp add: last_element_no_separator)
qed

lemma grpc_videoID_no_separator: "CHR ''/'' \<notin> set (grpc_videoID name)"
proof -
  have "grpc_videoID name = Base (CHR ''v'' # ''ideo_'' @ Base name)"
    by (simp add: grpc_videoID_def)
  then show ?thesis
    using Base_Cons_no_separator [of "CHR ''v''" "''ideo_'' @ Base name"]
    by (simp add: IsPathSeparator_def)
qed

text \<open>
  Claim C7: for every client file name the derived identifier is the base of the name with a
  fixed prefix and holds no path separator, so that the destination stays under the uploads
  directory. The streaming path applies \<^verbatim>\<open>filepath.Base\<close> a second time, to the prefixed
  name: its identifier never holds a separator (\<open>grpc_videoID_no_separator\<close>) and its
  destination is the identifier under \<^verbatim>\<open>uploads/\<close> (\<open>savePath_grpc\<close>, proved below; for
  the HTTP path \<open>savePath_web\<close>). The
  HTTP path omits the second call, and there the claim fails: for a file name of slashes only,
  whose base is the slash, the identifier is the prefix followed by a slash, and the job names
  a preview inside a directory that does not exist.
\<close>

theorem C7_web_videoID_keeps_separator:
  "web_videoID ''/'' = ''video_web_/'' \<and> CHR ''/'' \<in> set (web_videoID ''/'') \<and>
   grpc_videoID ''/'' = ''video_'' \<and>
   handleWebUpload quiet (example_post ''/'') \<lparr>files = Map.empty, pool = example_pool 5\<rparr> =
     (Inr 200,
      [CallCreate ''uploads/video_web_'' True, CallWrite ''uploads/video_web_'' 3 True,
       CallClose ''uploads/video_web_'' True,
       CallAddJob \<lparr>Filename = ''uploads/video_web_'', VideoID = ''video_web_/''\<rparr> (Some True)],
      \<lparr>files = [''uploads/video_web_'' \<mapsto> ''new''],
         pool = with_queue (example_pool 5)
                  [\<lparr>Filename = ''uploads/video_web_'', VideoID = ''video_web_/''\<rparr>]\<rparr>) \<and>
   last (gif_command \<lparr>Filename = ''uploads/video_web_'', VideoID = ''video_web_/''\<rparr>) =
     ''uploads/video_web_/_preview.gif''"
  by (simp add: path_evals handleWebUpload_def os_Create_def file_Write_def
      file_size_def file_Close_def AddJob_def chansend_nb_def
      quiet_def example_post_def example_pool_def with_queue_def gif_command_def Let_def)

lemma Base_plain:
  assumes "CHR ''/'' \<notin> set x" "x \<noteq> []"
  shows "Base x = x"
proof -
  have ns: "\<forall>c \<in> set (rev x). \<not> IsPathSeparator c"
    using assms by (auto simp: IsPathSeparator_def)
  have "dropWhile IsPathSeparator (rev x) = rev x"
    using ns assms(2) by (cases "rev x") auto
  then have s: "strip_trailing_slashes x = x" by (simp add: strip_trailing_slashes_def)
  have "takeWhile (\<lambda>c. \<not> IsPathSeparator c) (rev x) = rev x"
    using ns by (intro takeWhile_eq_all_conv [THEN iffD2]) simp
  then have "last_element x = x" by (simp only: last_element_def rev_rev_ident)
  then show ?thesis using s assms(2) by (simp add: Base_def)
qed

lemma Base_cases: "Base name = ''/'' \<or> (CHR ''/'' \<notin> set (Base name) \<and> Base name \<noteq> [])"
proof (cases "CHR ''/'' \<in> set (Base name)")
  case True
  then show ?thesis by (simp add: Base_no_separator)
next
  case False
  have "Base name \<noteq> []" by (simp add: Base_def Let_def)
  then show ?thesis using False by simp
qed

lemma grpc_videoID_eq:
  "grpc_videoID name = (if Base name = ''/'' then ''video_'' else ''video_'' @ Base name)"
proof (cases "Base name = ''/''")
  case True
  then show ?thesis
    by (simp add: grpc_videoID_def Base_def strip_trailing_slashes_def last_element_def
        IsPathSeparator_def)
next
  case False
  then have "CHR ''/'' \<notin> set (''video_'' @ Base name)" using Base_cases [of name] by auto
  then have "Base (''video_'' @ Base name) = ''video_'' @ Base name"
    by (intro Base_plain) simp_all
  then show ?thesis using False by (simp add: grpc_videoID_def)
qed

lemma split_path_plain: "CHR ''/'' \<notin> set x \<Longrightarrow> split_path x = [x]"
  by (induction x) (auto simp: IsPathSeparator_def)

lemma split_path_slash:
  "CHR ''/'' \<notin> set a \<Longrightarrow> split_path (a @ CHR ''/'' # b) = a # split_path b"
  by (induction a) (auto simp: IsPathSeparator_def)

lemma Join_uploads:
  assumes "CHR ''/'' \<notin> set x" "x \<noteq> []" "x \<noteq> ''.''" "x \<noteq> ''..''"
  shows "Join [''uploads'', x] = ''uploads/'' @ x"
proof -
  have sp: "split_path (''uploads'' @ CHR ''/'' # x) = [''uploads'', x]"
    using split_path_slash [of "''uploads''" x] split_path_plain [OF assms(1)] by simp
  have "Clean (''uploads'' @ CHR ''/'' # x) = ''uploads/'' @ x"
    unfolding Clean_def sp using assms
    by (simp add: clean_elem_def IsPathSeparator_def)
  then show ?thesis by (simp add: Join.simps)
qed

lemma savePath_grpc:
  "Join [''uploads'', grpc_videoID name] = ''uploads/'' @ grpc_videoID name"
proof -
  have "grpc_videoID name \<noteq> []" "grpc_videoID name \<noteq> ''.''" "grpc_videoID name \<noteq> ''..''"
    by (simp_all add: grpc_videoID_eq)
  then show ?thesis using grpc_videoID_no_separator by (intro Join_uploads) simp_all
qed

text \<open>On the HTTP path the destination stays under the uploads directory as well.\<close>

lemma savePath_web:
  "Join [''uploads'', web_videoID name] =
     (if Base name = ''/'' then ''uploads/video_web_'' else ''uploads/'' @ web_videoID name)"
proof (cases "Base name = ''/''")
  case True
  then show ?thesis by (simp add: web_videoID_def path_evals)
next
  case False
  then have "CHR ''/'' \<notin> set (web_videoID name)"
    using Base_cases [of name] by (auto simp: web_videoID_def)
  then have "Join [''uploads'', web_videoID name] = ''uploads/'' @ web_videoID name"
    by (intro Join_uploads) (simp_all add: web_videoID_def)
  then show ?thesis using False by simp
qed

section \<open>Properties of the listing handler\<close>

lemma collect_videos_eq:
  "collect_videos entries videos =
     (if video_names entries = [] then videos
      else Some ((case videos of None \<Rightarrow> [] | Some xs \<Rightarrow> xs) @ video_names entries))"
  by (induction entries arbitrary: videos)
     (auto simp: video_names_def append_slice_def split: option.splits)

lemma handleListVideos_eq:
  "handleListVideos (Some entries) =
     (200, Json (if video_names entries = [] then JNull else JArray (video_names entries)))"
  by (simp add: handleListVideos_def collect_videos_eq json_Encode_def)

text \<open>
  Claim C9: the response to the listing request is the JSON array of exactly the names of the
  entries that are not directories and end in \<^verbatim>\<open>.mp4\<close>, the empty array when there is
  none. With at least one such entry this is what the handler writes
  (\<open>handleListVideos_eq\<close>); with none the claim fails: the slice is still nil and the response
  is the JSON value \<^verbatim>\<open>null\<close>, not the empty array.
\<close>

theorem C9_empty_listing_is_null:
  "handleListVideos (Some []) = (200, Json JNull) \<and>
   handleListVideos (Some [\<lparr>Name = ''notes.txt'', IsDir = False\<rparr>, \<lparr>Name = ''old.mp4'', IsDir = True\<rparr>]) =
     (200, Json JNull) \<and>
   handleListVideos (Some example_entries) = (200, Json (JArray [''video_a.mp4'']))"
  by (simp add: handleListVideos_def json_Encode_def append_slice_def HasSuffix_def
      example_entries_def)

section \<open>Properties of the worker\<close>







lemma worker_open_blocks:
  "\<not> chclosed c \<Longrightarrow> worker e c st = None"
proof (induction "chbuf c" arbitrary: c st)
  case Nil
  then show ?case by (subst worker.simps) (simp add: chanrecv_def)
next
  case (Cons j js)
  let ?c = "c\<lparr>chbuf := js\<rparr>"
  have "worker e ?c (process_job e j st) = None"
    using Cons.prems by (intro Cons.hyps(1)) simp_all
  moreover have "chanrecv c = RecvJob j ?c"
    using Cons.hyps(2) [symmetric] by (simp add: chanrecv_def)
  ultimately show ?case by (subst worker.simps) simp
qed






section \<open>Properties of the pool and its callers running together\<close>

lemma hands_Nil [simp]: "hands [] = {#}"
  by (simp add: hands_def)

lemma alive_Nil [simp]: "alive [] = 0"
  by (simp add: alive_def)

lemma hands_update:
  "r < length gs \<Longrightarrow> hands (gs[r := g]) + mset (hand (gs ! r)) = hands gs + mset (hand g)"
proof (induction gs arbitrary: r)
  case Nil
  then show ?case by simp
next
  case (Cons a gs)
  show ?case
  proof (cases r)
    case 0
    then show ?thesis by (simp add: hands_def)
  next
    case (Suc k)
    then have "hands (gs[k := g]) + mset (hand (gs ! k)) = hands gs + mset (hand g)"
      using Cons by simp
    then show ?thesis using Suc by (simp add: hands_def)
  qed
qed

lemma alive_update:
  "r < length gs \<Longrightarrow>
   alive (gs[r := g]) + (if gs ! r = Exited then 0 else 1) =
   alive gs + (if g = Exited then 0 else 1)"
proof (induction gs arbitrary: r)
  case Nil
  then show ?case by simp
next
  case (Cons a gs)
  show ?case
  proof (cases r)
    case 0
    then show ?thesis by (simp add: alive_def)
  next
    case (Suc k)
    then have "alive (gs[k := g]) + (if gs ! k = Exited then 0 else 1) =
               alive gs + (if g = Exited then 0 else 1)"
      using Cons by simp
    then show ?thesis using Suc by (auto simp: alive_def split: if_splits)
  qed
qed

lemma hands_same:
  "r < length gs \<Longrightarrow> hand (gs ! r) = hand g \<Longrightarrow> hands (gs[r := g]) = hands gs"
  using hands_update [of r gs g] by simp

lemma alive_same:
  "r < length gs \<Longrightarrow> gs ! r \<noteq> Exited \<Longrightarrow> g \<noteq> Exited \<Longrightarrow> alive (gs[r := g]) = alive gs"
  using alive_update [of r gs g] by simp

lemma in_update: "x \<in> set (gs[r := g]) \<Longrightarrow> x \<noteq> g \<Longrightarrow> x \<in> set gs"
  using set_update_subset_insert [of gs r g] by auto

lemma hands_append_Ready: "hands (gs @ replicate n Ready) = hands gs"
  by (induction n) (simp_all add: hands_def replicate_append_same [symmetric] del: replicate_Suc)

lemma alive_append_Ready: "alive (gs @ replicate n Ready) = alive gs + n"
  by (simp add: alive_def)

lemma hands_replicate_Ready: "hands (replicate n Ready) = {#}"
  using hands_append_Ready [of "[]" n] by (simp add: hands_def)

lemma alive_replicate_Ready: "alive (replicate n Ready) = n"
  by (simp add: alive_def)

lemma wake_length [simp]: "length (wake rs gs) = length gs"
  unfolding wake_def by (induction rs arbitrary: gs) simp_all

lemma wake_hands:
  "\<forall>r \<in> set rs. r < length gs \<and> hand (gs ! r) = [] \<Longrightarrow> hands (wake rs gs) = hands gs"
proof (induction rs arbitrary: gs)
  case Nil
  then show ?case by (simp add: wake_def)
next
  case (Cons r rs)
  have "\<forall>r' \<in> set rs. r' < length (gs[r := Closing]) \<and> hand (gs[r := Closing] ! r') = []"
    using Cons.prems by (auto simp: nth_list_update)
  then have "hands (wake rs (gs[r := Closing])) = hands (gs[r := Closing])"
    by (rule Cons.IH)
  moreover have "hands (gs[r := Closing]) = hands gs"
    using Cons.prems by (intro hands_same) simp_all
  ultimately show ?case by (simp add: wake_def)
qed

lemma wake_alive:
  "\<forall>r \<in> set rs. r < length gs \<and> gs ! r \<noteq> Exited \<Longrightarrow> alive (wake rs gs) = alive gs"
proof (induction rs arbitrary: gs)
  case Nil
  then show ?case by (simp add: wake_def)
next
  case (Cons r rs)
  have "\<forall>r' \<in> set rs. r' < length (gs[r := Closing]) \<and> gs[r := Closing] ! r' \<noteq> Exited"
    using Cons.prems by (auto simp: nth_list_update)
  then have "alive (wake rs (gs[r := Closing])) = alive (gs[r := Closing])"
    by (rule Cons.IH)
  moreover have "alive (gs[r := Closing]) = alive gs"
    using Cons.prems by (intro alive_same) simp_all
  ultimately show ?case by (simp add: wake_def)
qed

lemma wake_Nil [simp]: "wake [] gs = gs"
  by (simp add: wake_def)

lemma alive_zero: "alive gs = 0 \<Longrightarrow> g \<in> set gs \<Longrightarrow> g = Exited"
  by (induction gs) (auto simp: alive_def split: if_splits)

lemma alive_pos: "r < length gs \<Longrightarrow> gs ! r \<noteq> Exited \<Longrightarrow> 0 < alive gs"
  using alive_zero [of gs "gs ! r"] by (cases "alive gs") auto

lemma pool_inv_init: "NewWorkerPool c q = Inr wp \<Longrightarrow> pool_inv c (init_system wp)"
  by (auto simp: NewWorkerPool_def make_chan_def pool_inv_def init_system_def hands_def alive_def
      split: if_splits)

lemma pool_inv_Start:
  "pool_inv c s \<Longrightarrow> \<not> started s \<Longrightarrow> stop s = NotCalled \<Longrightarrow>
   pool_inv c (s\<lparr>the_pool := Start (the_pool s), started := True\<rparr>)"
  by (auto simp: pool_inv_def Let_def Start_def hands_replicate_Ready alive_replicate_Ready)

lemma pool_inv_Return:
  "pool_inv c s \<Longrightarrow> Stop_wait_returns (the_pool s) \<Longrightarrow> pool_inv c (s\<lparr>stop := Returned\<rparr>)"
  by (auto simp: pool_inv_def Let_def Stop_wait_returns_def)

lemma pool_inv_AddJob:
  assumes inv: "pool_inv c s" and add: "AddJob (the_pool s) job = Inr (added, wp)"
  shows "pool_inv c (s\<lparr>the_pool := wp, admitted := admitted s @ (if added then [job] else [])\<rparr>)"
proof (cases "chansend_nb (JobQueue (the_pool s)) job")
  case SendPanics
  then show ?thesis using add by (simp add: AddJob_def)
next
  case SendWouldBlock
  then have "added = False" "wp = the_pool s" using add by (auto simp: AddJob_def)
  then show ?thesis using inv by (simp add: pool_inv_def Let_def)
next
  case (SendBuffered q)
  then have a: "added" "wp = (the_pool s)\<lparr>JobQueue := q\<rparr>" using add by (auto simp: AddJob_def)
  have q: "q = (JobQueue (the_pool s))\<lparr>chbuf := chbuf (JobQueue (the_pool s)) @ [job]\<rparr>"
    "\<not> chclosed (JobQueue (the_pool s))" "recvq (JobQueue (the_pool s)) = []"
    using SendBuffered by (auto simp: chansend_nb_def split: if_splits list.splits)
  show ?thesis using inv a q by (auto simp: pool_inv_def Let_def)
next
  case (SendHandoff r q)
  let ?gs = "goroutines (the_pool s)"
  have a: "added" "wp = (the_pool s)\<lparr>JobQueue := q, goroutines := ?gs[r := Working job]\<rparr>"
    using add SendHandoff by (auto simp: AddJob_def)
  obtain rs where q: "recvq (JobQueue (the_pool s)) = r # rs"
    "q = (JobQueue (the_pool s))\<lparr>recvq := rs\<rparr>" "\<not> chclosed (JobQueue (the_pool s))"
    using SendHandoff by (auto simp: chansend_nb_def split: if_splits list.splits)
  have r: "r < length ?gs" "?gs ! r = Parked" "r \<notin> set rs" "distinct rs"
    "chbuf (JobQueue (the_pool s)) = []"
    using inv q by (auto simp: pool_inv_def Let_def)
  have h: "hands (?gs[r := Working job]) = hands ?gs + {#job#}"
    using hands_update [of r ?gs "Working job"] r by simp
  have al: "alive (?gs[r := Working job]) = alive ?gs"
    using r by (intro alive_same) simp_all
  have parked: "\<forall>r' \<in> set (recvq (JobQueue (the_pool s))). r' < length ?gs \<and> ?gs ! r' = Parked"
    using inv by (simp add: pool_inv_def Let_def)
  have rest: "\<forall>r' \<in> set rs. r' < length ?gs \<and> ?gs[r := Working job] ! r' = Parked"
    using parked q r by (auto simp: nth_list_update)
  have none: "Closing \<notin> set (?gs[r := Working job])" "Exited \<notin> set (?gs[r := Working job])"
    using inv q by (auto simp: pool_inv_def Let_def dest: in_update)
  show ?thesis using inv a q r h al rest none by (simp add: pool_inv_def Let_def)
qed

lemma pool_inv_worker:
  assumes inv: "pool_inv c s" and st: "worker_step r (the_pool s) = Some wp"
  shows "pool_inv c (s\<lparr>the_pool := wp, finished := finished s @ hand (goroutines (the_pool s) ! r)\<rparr>)"
proof -
  let ?p = "the_pool s"
  let ?q = "JobQueue ?p"
  let ?gs = "goroutines ?p"
  have r: "r < length ?gs" using st by (auto simp: worker_step_def split: if_splits)
  have parked: "\<forall>r' \<in> set (recvq ?q). r' < length ?gs \<and> ?gs ! r' = Parked"
    using inv by (simp add: pool_inv_def Let_def)
  show ?thesis
  proof (cases "?gs ! r")
    case Ready
    have notq: "r \<notin> set (recvq ?q)" using inv Ready by (auto simp: pool_inv_def Let_def)
    show ?thesis
    proof (cases "chanrecv ?q")
      case (RecvJob job q')
      then obtain js where q: "chbuf ?q = job # js" "q' = ?q\<lparr>chbuf := js\<rparr>"
        by (auto simp: chanrecv_def split: list.splits if_splits)
      have wp: "wp = ?p\<lparr>JobQueue := q', goroutines := ?gs[r := Working job]\<rparr>"
        using st r Ready RecvJob by (simp add: worker_step_def)
      have e: "recvq ?q = []" "Closing \<notin> set ?gs" "Exited \<notin> set ?gs"
        using inv q by (auto simp: pool_inv_def Let_def)
      have h: "hands (?gs[r := Working job]) = hands ?gs + {#job#}"
        using hands_update [of r ?gs "Working job"] r Ready by simp
      have al: "alive (?gs[r := Working job]) = alive ?gs"
        using r Ready by (intro alive_same) simp_all
      have none: "Closing \<notin> set (?gs[r := Working job])" "Exited \<notin> set (?gs[r := Working job])"
        using e by (auto dest: in_update)
      show ?thesis using inv wp q e h al none Ready by (simp add: pool_inv_def Let_def)
    next
      case RecvClosed
      then have q: "chbuf ?q = []" "chclosed ?q"
        by (auto simp: chanrecv_def split: list.splits if_splits)
      have wp: "wp = ?p\<lparr>goroutines := ?gs[r := Closing]\<rparr>"
        using st r Ready RecvClosed by (simp add: worker_step_def)
      have e: "recvq ?q = []" using inv q by (auto simp: pool_inv_def Let_def)
      have h: "hands (?gs[r := Closing]) = hands ?gs"
        using r Ready by (intro hands_same) simp_all
      have al: "alive (?gs[r := Closing]) = alive ?gs"
        using r Ready by (intro alive_same) simp_all
      show ?thesis using inv wp q e h al Ready by (simp add: pool_inv_def Let_def)
    next
      case RecvWouldBlock
      then have q: "chbuf ?q = []" "\<not> chclosed ?q"
        by (auto simp: chanrecv_def split: list.splits if_splits)
      have wp: "wp = ?p\<lparr>JobQueue := ?q\<lparr>recvq := recvq ?q @ [r]\<rparr>, goroutines := ?gs[r := Parked]\<rparr>"
        using st r Ready RecvWouldBlock by (simp add: worker_step_def)
      have h: "hands (?gs[r := Parked]) = hands ?gs"
        using r Ready by (intro hands_same) simp_all
      have al: "alive (?gs[r := Parked]) = alive ?gs"
        using r Ready by (intro alive_same) simp_all
      have e: "Closing \<notin> set ?gs" "Exited \<notin> set ?gs"
        using inv q by (auto simp: pool_inv_def Let_def)
      have none: "Closing \<notin> set (?gs[r := Parked])" "Exited \<notin> set (?gs[r := Parked])"
        using e by (auto dest: in_update)
      have rest: "\<forall>r' \<in> set (recvq ?q). r' < length ?gs \<and> ?gs[r := Parked] ! r' = Parked"
        using parked r by (auto simp: nth_list_update)
      show ?thesis using inv wp q h al none rest notq r Ready
        by (simp add: pool_inv_def Let_def)
    qed
  next
    case Parked
    then show ?thesis using st r by (simp add: worker_step_def)
  next
    case (Working job)
    have wp: "wp = ?p\<lparr>goroutines := ?gs[r := Ready]\<rparr>"
      using st r Working by (simp add: worker_step_def)
    have h: "hands (?gs[r := Ready]) + {#job#} = hands ?gs"
      using hands_update [of r ?gs Ready] r Working by simp
    have al: "alive (?gs[r := Ready]) = alive ?gs"
      using r Working by (intro alive_same) simp_all
    have rest: "\<forall>r' \<in> set (recvq ?q). r' < length ?gs \<and> ?gs[r := Ready] ! r' = Parked"
      using parked r Working by (auto simp: nth_list_update)
    have cl: "Closing \<in> set (?gs[r := Ready]) \<or> Exited \<in> set (?gs[r := Ready]) \<Longrightarrow>
              Closing \<in> set ?gs \<or> Exited \<in> set ?gs"
      by (auto dest: in_update)
    have m: "mset (admitted s) = mset (finished s) + {#job#} + mset (chbuf ?q) + hands (?gs[r := Ready])"
      using inv h [symmetric] by (simp add: pool_inv_def Let_def)
    show ?thesis using inv wp m al rest cl Working
      by (auto simp: pool_inv_def Let_def)
  next
    case Closing
    have wp: "wp = ?p\<lparr>wg := wg ?p - 1, goroutines := ?gs[r := Exited]\<rparr>"
      using st r Closing by (simp add: worker_step_def)
    have h: "hands (?gs[r := Exited]) = hands ?gs"
      using r Closing by (intro hands_same) simp_all
    have al: "alive (?gs[r := Exited]) + 1 = alive ?gs"
      using alive_update [of r ?gs Exited] r Closing by simp
    have rest: "\<forall>r' \<in> set (recvq ?q). r' < length ?gs \<and> ?gs[r := Exited] ! r' = Parked"
      using parked r Closing by (auto simp: nth_list_update)
    have q: "chclosed ?q" "chbuf ?q = []"
      using inv r Closing nth_mem [OF r] by (auto simp: pool_inv_def Let_def)
    have nr: "stop s \<noteq> Returned"
      using inv al by (auto simp: pool_inv_def Let_def)
    have w: "wg ?p - 1 = int (alive (?gs[r := Exited]))"
      using inv al by (auto simp: pool_inv_def Let_def)
    show ?thesis using inv wp h w rest q nr Closing
      by (auto simp: pool_inv_def Let_def)
  next
    case Exited
    then show ?thesis using st r by (simp add: worker_step_def)
  qed
qed

lemma pool_inv_close:
  assumes inv: "pool_inv c s" and cl: "Stop_close (the_pool s) = Inr wp"
  shows "pool_inv c (s\<lparr>the_pool := wp, stop := Waiting\<rparr>)"
proof -
  let ?p = "the_pool s"
  let ?q = "JobQueue ?p"
  let ?gs = "goroutines ?p"
  have op: "\<not> chclosed ?q" and
    wp: "wp = ?p\<lparr>JobQueue := ?q\<lparr>chclosed := True, recvq := []\<rparr>,
                   goroutines := wake (recvq ?q) ?gs\<rparr>"
    using cl by (auto simp: Stop_close_def closechan_def split: if_splits)
  have parked: "\<forall>r \<in> set (recvq ?q). r < length ?gs \<and> ?gs ! r = Parked"
    using inv by (simp add: pool_inv_def Let_def)
  have h: "hands (wake (recvq ?q) ?gs) = hands ?gs"
    using parked by (intro wake_hands) simp
  have al: "alive (wake (recvq ?q) ?gs) = alive ?gs"
    using parked by (intro wake_alive) simp
  have none: "Closing \<notin> set ?gs" "Exited \<notin> set ?gs"
    using inv op by (auto simp: pool_inv_def Let_def)
  have e: "chbuf ?q = []"
    if "Closing \<in> set (wake (recvq ?q) ?gs) \<or> Exited \<in> set (wake (recvq ?q) ?gs)"
  proof (cases "recvq ?q")
    case Nil
    then show ?thesis using that none by simp
  next
    case (Cons a list)
    then show ?thesis using inv by (simp add: pool_inv_def Let_def)
  qed
  show ?thesis using inv wp h al e by (auto simp: pool_inv_def Let_def)
qed

lemma pool_inv_step:
  "pool_inv c s \<Longrightarrow> sys_step ev s = Some s' \<Longrightarrow> pool_inv c s'"
proof (cases ev)
  case EvStart
  assume "pool_inv c s" "sys_step ev s = Some s'"
  then show ?thesis using EvStart
    by (auto simp: sys_step_def split: if_splits intro: pool_inv_Start)
next
  case (EvAddJob job)
  assume "pool_inv c s" "sys_step ev s = Some s'"
  then show ?thesis using EvAddJob
    by (auto simp: sys_step_def split: sum.splits intro: pool_inv_AddJob)
next
  case (EvWorker r)
  assume "pool_inv c s" "sys_step ev s = Some s'"
  then show ?thesis using EvWorker
    by (auto simp: sys_step_def split: option.splits intro: pool_inv_worker)
next
  case EvStopClose
  assume "pool_inv c s" "sys_step ev s = Some s'"
  then show ?thesis using EvStopClose
    by (auto simp: sys_step_def split: if_splits sum.splits intro: pool_inv_close)
next
  case EvStopReturn
  assume "pool_inv c s" "sys_step ev s = Some s'"
  then show ?thesis using EvStopReturn
    by (auto simp: sys_step_def split: if_splits intro: pool_inv_Return)
qed

lemma pool_inv_run:
  "pool_inv c s \<Longrightarrow> run evs s = Some s' \<Longrightarrow> pool_inv c s'"
proof (induction evs arbitrary: s)
  case Nil
  then show ?case by simp
next
  case (Cons ev evs)
  then obtain s1 where "sys_step ev s = Some s1" "run evs s1 = Some s'"
    by (auto split: option.splits)
  then show ?case using Cons pool_inv_step by blast
qed

lemma run_example: "run example_events (init_system (example_pool 1)) = Some example_final"
  by (simp add: example_events_def example_final_def init_system_def example_pool_def
      sys_step_def AddJob_def chansend_nb_def Start_def worker_step_def chanrecv_def
      Stop_close_def closechan_def wake_def Stop_wait_returns_def numeral_2_eq_2)

text \<open>
  In every state the system reaches with the queue open and of capacity at least one, AddJob
  returns true exactly when the queue holds fewer jobs than its capacity (a receiver is
  parked only on an empty queue).
\<close>

lemma AddJob_admits_iff_room:
  assumes inv: "pool_inv c s" and op: "\<not> chclosed (JobQueue (the_pool s))"
    and cap: "0 < dataqsiz (JobQueue (the_pool s))"
  shows "\<exists>wp. AddJob (the_pool s) job =
           Inr (length (chbuf (JobQueue (the_pool s))) < dataqsiz (JobQueue (the_pool s)), wp)"
proof (cases "recvq (JobQueue (the_pool s))")
  case Nil
  then show ?thesis using op by (simp add: AddJob_open)
next
  case (Cons r rs)
  then have "chbuf (JobQueue (the_pool s)) = []"
    using inv by (simp add: pool_inv_def Let_def)
  then show ?thesis using op cap Cons by (simp add: AddJob_def chansend_nb_def)
qed

text \<open>
  Claim C2. For a pool started with \<open>c \<ge> 1\<close> workers, in every interleaving of AddJob
  calls, worker steps and the two steps of \<^verbatim>\<open>Stop\<close>: when \<^verbatim>\<open>Stop\<close> has returned, the
  queue is closed and empty, each of the \<open>c\<close> workers has returned (none holds a job), and
  the jobs whose processing a worker has finished are exactly the jobs that AddJob admitted:
  no admitted job is left in the queue or dropped.
\<close>

theorem C2_stop_returns_after_drain:
  assumes new: "NewWorkerPool c q = Inr wp" and c: "1 \<le> c"
    and run: "run evs (init_system wp) = Some s"
    and st: "started s" and ret: "stop s = Returned"
  shows "chclosed (JobQueue (the_pool s)) \<and> chbuf (JobQueue (the_pool s)) = [] \<and>
         goroutines (the_pool s) = replicate (nat c) Exited \<and>
         mset (finished s) = mset (admitted s)"
proof -
  let ?gs = "goroutines (the_pool s)"
  have inv: "pool_inv c s"
    using pool_inv_run [OF pool_inv_init [OF new] run] .
  have len: "length ?gs = nat c" and zero: "alive ?gs = 0"
    using inv st ret by (auto simp: pool_inv_def Let_def)
  have all: "\<forall>g \<in> set ?gs. g = Exited" using alive_zero [OF zero] by blast
  then have gs: "?gs = replicate (nat c) Exited"
    using len by (metis replicate_length_same)
  have "Exited \<in> set ?gs" using gs c by simp
  then have q: "chclosed (JobQueue (the_pool s))" "chbuf (JobQueue (the_pool s)) = []"
    using inv by (auto simp: pool_inv_def Let_def)
  have "hands ?gs = {#}"
    by (subst gs) (simp add: hands_def)
  then have "mset (finished s) = mset (admitted s)"
    using inv q by (simp add: pool_inv_def Let_def)
  then show ?thesis using q gs by simp
qed

text \<open>The example run ends with \<^verbatim>\<open>Stop\<close> returned, three jobs admitted and finished.\<close>

theorem C2_stop_returns_after_drain_witness:
  "NewWorkerPool 2 1 = Inr (example_pool 1) \<and>
   run example_events (init_system (example_pool 1)) = Some example_final \<and>
   started example_final \<and> stop example_final = Returned \<and>
   chclosed (JobQueue (the_pool example_final)) \<and> chbuf (JobQueue (the_pool example_final)) = [] \<and>
   goroutines (the_pool example_final) = [Exited, Exited] \<and>
   mset (finished example_final) = mset (admitted example_final)"
proof -
  have new: "NewWorkerPool 2 1 = Inr (example_pool 1)"
    by (simp add: NewWorkerPool_def make_chan_def example_pool_def)
  have st: "started example_final" and ret: "stop example_final = Returned"
    by (simp_all add: example_final_def)
  have c: "(1::int) \<le> 2" by simp
  show ?thesis
    using C2_stop_returns_after_drain [OF new c run_example st ret] new run_example st ret
    by (simp add: numeral_2_eq_2)
qed

end
